theory Spec2Isabelle
  imports Main "HOL-Library.Word" "HOL-Library.Multiset" "HOL-Library.Sublist"
begin

section \<open>The scanner: \<open>main.py\<close>\<close>

subsection \<open>Bytes, files and the incremental hash object\<close>

type_synonym byte = "8 word"

text \<open>
  \<open>hashlib.md5\<close> is library code. The scanner uses three of its operations:
  \<open>hashlib.md5()\<close>, \<open>.update(chunk)\<close> and \<open>.hexdigest()\<close>. They are parameters of the
  model; \<open>hexdigest\<close> is the lowercase hexadecimal rendering of the 16-byte digest.
\<close>

record 's hasher =
  md5_new :: "'s"
  md5_update :: "'s \<Rightarrow> byte list \<Rightarrow> 's"
  md5_digest :: "'s \<Rightarrow> byte list"

definition hexdigit :: "nat \<Rightarrow> char" where
  "hexdigit n = ''0123456789abcdef'' ! (n mod 16)"

definition hex_byte :: "byte \<Rightarrow> string" where
  "hex_byte b = [hexdigit (unat b div 16), hexdigit (unat b mod 16)]"

definition hexdigest :: "'s hasher \<Rightarrow> 's \<Rightarrow> string" where
  "hexdigest h st = concat (map hex_byte (md5_digest h st))"

text \<open>
  What the library documents about the hash object: feeding data in pieces is the same as
  feeding the concatenation, feeding nothing changes nothing, and an MD5 digest has 16 bytes.
\<close>

definition hashlib_law :: "'s hasher \<Rightarrow> bool" where
  "hashlib_law h \<longleftrightarrow>
     (\<forall>st. md5_update h st [] = st) \<and>
     (\<forall>st a b. md5_update h (md5_update h st a) b = md5_update h st (a @ b)) \<and>
     (\<forall>st. length (md5_digest h st) = 16)"

text \<open>\<open>hashlib.md5(data).hexdigest()\<close>: the digest of a whole byte string at once.\<close>

definition md5_whole :: "'s hasher \<Rightarrow> byte list \<Rightarrow> string" where
  "md5_whole h bs = hexdigest h (md5_update h (md5_new h) bs)"

text \<open>
  A file on disk: its bytes, and the offset from which reads fail with an I/O error
  (\<open>None\<close> for a healthy file). A path with no entry cannot be opened.
\<close>

record disk_file =
  content :: "byte list"
  fault_at :: "nat option"

type_synonym filesystem = "string \<rightharpoonup> disk_file"

datatype exc =
  FileNotFoundError | OSError | TypeError | ValueError | OverflowError | UnicodeEncodeError

definition CHUNK :: nat where
  "CHUNK = 4096"

text \<open>\<open>f.read(4096)\<close> on a binary file positioned at \<open>pos\<close>.\<close>

definition read_chunk :: "disk_file \<Rightarrow> nat \<Rightarrow> exc + byte list" where
  "read_chunk f pos =
     (case fault_at f of
        Some b \<Rightarrow> if b \<le> pos then Inl OSError else Inr (take CHUNK (drop pos (content f)))
      | None \<Rightarrow> Inr (take CHUNK (drop pos (content f))))"

text \<open>
  \<open>for chunk in iter(lambda: f.read(4096), b""): hash_md5.update(chunk)\<close>: the loop stops at
  the first empty chunk.
\<close>

function md5_loop :: "'s hasher \<Rightarrow> disk_file \<Rightarrow> nat \<Rightarrow> 's \<Rightarrow> exc + 's" where
  "md5_loop h f pos st =
     (case read_chunk f pos of
        Inl e \<Rightarrow> Inl e
      | Inr chunk \<Rightarrow>
          if chunk = [] then Inr st
          else md5_loop h f (pos + length chunk) (md5_update h st chunk))"
  by pat_completeness auto
termination
proof (relation "measure (\<lambda>(h, f, pos, st). length (content f) - pos)")
  show "wf (measure (\<lambda>(h, f, pos, st). length (content f) - pos))"
    by simp
next
  fix h :: "'s hasher" and f :: disk_file and pos :: nat and st :: 's and chunk :: "byte list"
  assume r: "read_chunk f pos = Inr chunk" and ne: "chunk \<noteq> []"
  from r have c: "chunk = take CHUNK (drop pos (content f))"
    by (auto simp: read_chunk_def split: option.splits if_splits)
  with ne have "pos < length (content f)"
    by (cases "pos < length (content f)") auto
  moreover from ne have "0 < length chunk"
    by simp
  ultimately show "((h, f, pos + length chunk, md5_update h st chunk), (h, f, pos, st))
      \<in> measure (\<lambda>(h, f, pos, st). length (content f) - pos)"
    by (cases chunk) auto
qed

declare md5_loop.simps [simp del]

type_synonym digest_result = "string option \<times> string"

text \<open>
  \<open>calculate_md5\<close>: any exception (the file cannot be opened, a read fails) gives
  \<open>(None, file_path)\<close>; otherwise \<open>(hexdigest, file_path)\<close>. The message it prints on
  failure goes to the console and is not part of the returned value.
\<close>

definition calculate_md5 :: "'s hasher \<Rightarrow> filesystem \<Rightarrow> string \<Rightarrow> digest_result" where
  "calculate_md5 h fs file_path =
     (case fs file_path of
        None \<Rightarrow> (None, file_path)
      | Some f \<Rightarrow>
          (case md5_loop h f 0 (md5_new h) of
             Inl e \<Rightarrow> (None, file_path)
           | Inr st \<Rightarrow> (Some (hexdigest h st), file_path)))"

text \<open>A small hash object that obeys the library's laws: the sum of the bytes fed so far.\<close>

definition toy_hasher :: "byte hasher" where
  "toy_hasher = \<lparr> md5_new = 0, md5_update = (\<lambda>st bs. st + sum_list bs),
     md5_digest = (\<lambda>st. [0, 0, 0, 0, 0, 0, 0, 0, 0, 0, 0, 0, 0, 0, 0, st]) \<rparr>"

subsection \<open>The worker pool\<close>

text \<open>
  \<open>ThreadPoolExecutor(max_workers=k)\<close> and \<open>as_completed\<close> are library code. Their
  behaviour is modelled as a machine: \<open>executor.submit\<close> queues one future per path (a
  future is identified by its submission number), a worker takes the oldest queued future
  while fewer than \<open>k\<close> run, and any running future may finish next. \<open>as_completed\<close>
  hands over, one at a time, any future that has finished and has not been handed over yet:
  the futures that had finished before it was called come in no particular order, the others
  as they finish. Which step happens next is the choice of the scheduler, given to the model
  as a list of actions. The file system does not change during a scan.
\<close>

record pool =
  pending :: "(nat \<times> string) list"
  running :: "(nat \<times> string) list"
  finished :: "(nat \<times> digest_result) list"
  handed :: "(nat \<times> digest_result) list"

datatype action = Start | Finish nat | Yield nat

text \<open>\<open>{executor.submit(self.calculate_md5, file_path): file_path for file_path in image_files}\<close>\<close>

definition submit_all :: "string list \<Rightarrow> pool" where
  "submit_all image_files =
     \<lparr> pending = zip [0..<length image_files] image_files, running = [], finished = [],
       handed = [] \<rparr>"

definition pool_step :: "nat \<Rightarrow> 's hasher \<Rightarrow> filesystem \<Rightarrow> action \<Rightarrow> pool \<Rightarrow> pool option" where
  "pool_step k h fs a st =
     (case a of
        Start \<Rightarrow>
          (case pending st of
             [] \<Rightarrow> None
           | t # ts \<Rightarrow>
               if length (running st) < k
               then Some (st\<lparr> pending := ts, running := running st @ [t] \<rparr>)
               else None)
      | Finish i \<Rightarrow>
          if i < length (running st)
          then Some (st\<lparr> running := take i (running st) @ drop (Suc i) (running st),
                 finished := finished st
                   @ [(fst (running st ! i), calculate_md5 h fs (snd (running st ! i)))] \<rparr>)
          else None
      | Yield j \<Rightarrow>
          if j < length (finished st)
          then Some (st\<lparr> finished := take j (finished st) @ drop (Suc j) (finished st),
                 handed := handed st @ [finished st ! j] \<rparr>)
          else None)"

fun pool_exec :: "nat \<Rightarrow> 's hasher \<Rightarrow> filesystem \<Rightarrow> action list \<Rightarrow> pool \<Rightarrow> pool option" where
  "pool_exec k h fs [] st = Some st"
| "pool_exec k h fs (a # acts) st =
     (case pool_step k h fs a st of
        None \<Rightarrow> None
      | Some st' \<Rightarrow> pool_exec k h fs acts st')"

text \<open>The loop over \<open>as_completed\<close> ends when every future has been handed over.\<close>

definition all_done :: "pool \<Rightarrow> bool" where
  "all_done st \<longleftrightarrow> pending st = [] \<and> running st = [] \<and> finished st = []"

text \<open>The results in the order in which \<open>as_completed\<close> handed their futures over.\<close>

definition as_completed :: "pool \<Rightarrow> digest_result list" where
  "as_completed st = map snd (handed st)"

text \<open>
  The pool size: \<open>max_workers=None\<close> lets the library choose (\<open>dflt\<close>, a positive number
  that depends on the machine); a size below 1 makes the constructor raise \<open>ValueError\<close>.
\<close>

definition pool_size :: "nat \<Rightarrow> int option \<Rightarrow> exc + nat" where
  "pool_size dflt mw =
     (case mw of
        None \<Rightarrow> Inr dflt
      | Some k \<Rightarrow> if k \<le> 0 then Inl ValueError else Inr (nat k))"

subsection \<open>The finder and its fingerprint dictionary\<close>

text \<open>
  A Python \<open>dict\<close> keeps its keys in insertion order: it is an association list with
  distinct keys. \<open>dict_set d k v\<close> is \<open>d[k] = v\<close>; \<open>dict_get d k\<close> is the read of a
  \<open>defaultdict(list)\<close>, which is the empty list for a new key.
\<close>

type_synonym ('k, 'v) dict = "('k \<times> 'v) list"

fun dict_set :: "('k, 'v) dict \<Rightarrow> 'k \<Rightarrow> 'v \<Rightarrow> ('k, 'v) dict" where
  "dict_set [] k v = [(k, v)]"
| "dict_set ((k', v') # d) k v =
     (if k' = k then (k', v) # d else (k', v') # dict_set d k v)"

definition dict_get :: "('k, 'v list) dict \<Rightarrow> 'k \<Rightarrow> 'v list" where
  "dict_get d k = (case map_of d k of None \<Rightarrow> [] | Some vs \<Rightarrow> vs)"

text \<open>\<open>self.md5_dict[md5_value].append(file_path)\<close>\<close>

definition dict_append :: "('k, 'v list) dict \<Rightarrow> 'k \<Rightarrow> 'v \<Rightarrow> ('k, 'v list) dict" where
  "dict_append d k v = dict_set d k (dict_get d k @ [v])"

record finder =
  max_workers :: "int option"
  md5_dict :: "(string, string list) dict"

text \<open>\<open>DuplicateImageFinder(max_workers)\<close>: the dictionary starts empty.\<close>

definition init_finder :: "int option \<Rightarrow> finder" where
  "init_finder mw = \<lparr> max_workers = mw, md5_dict = [] \<rparr>"

datatype scan_msg = Started nat | Progress nat nat | AllDone

record tally =
  groups :: "(string, string list) dict"
  completed :: nat
  printed :: "scan_msg list"

text \<open>
  The body of the loop over the completed futures. \<open>if md5_value:\<close> is false for \<open>None\<close>
  and for the empty string.
\<close>

definition consume :: "nat \<Rightarrow> digest_result \<Rightarrow> tally \<Rightarrow> tally" where
  "consume n_files r t =
     (let md5_value = fst r; file_path = snd r;
          g = (case md5_value of
                 None \<Rightarrow> groups t
               | Some m \<Rightarrow> if m \<noteq> [] then dict_append (groups t) m file_path else groups t);
          c = completed t + 1
      in \<lparr> groups = g, completed = c,
           printed = printed t @ (if c mod 100 = 0 then [Progress c n_files] else []) \<rparr>)"

fun aggregate :: "nat \<Rightarrow> digest_result list \<Rightarrow> tally \<Rightarrow> tally" where
  "aggregate n_files [] t = t"
| "aggregate n_files (r # rs) t = aggregate n_files rs (consume n_files r t)"

datatype 'a outcome = Raised exc | No_Run | Returned 'a

text \<open>
  The values \<open>future.result()\<close> gives in the loop of \<open>process_images\<close>, in the order of
  the loop. \<open>sched\<close> is the scheduler's list of choices; a list that is no complete run of
  the pool (a step not enabled, or work left over) describes no execution.
\<close>

definition future_results ::
  "'s hasher \<Rightarrow> filesystem \<Rightarrow> nat \<Rightarrow> action list \<Rightarrow> finder \<Rightarrow> string list
     \<Rightarrow> digest_result list outcome" where
  "future_results h fs dflt sched self image_files =
     (case pool_size dflt (max_workers self) of
        Inl e \<Rightarrow> Raised e
      | Inr k \<Rightarrow>
          (case pool_exec k h fs sched (submit_all image_files) of
             None \<Rightarrow> No_Run
           | Some st \<Rightarrow> if all_done st then Returned (as_completed st) else No_Run))"

text \<open>
  \<open>process_images\<close>: the loop consumes the results one by one. The result is the finder
  with its dictionary updated, and what \<open>process_images\<close> itself printed.
\<close>

definition process_images ::
  "'s hasher \<Rightarrow> filesystem \<Rightarrow> nat \<Rightarrow> action list \<Rightarrow> finder \<Rightarrow> string list
     \<Rightarrow> (finder \<times> scan_msg list) outcome" where
  "process_images h fs dflt sched self image_files =
     (case future_results h fs dflt sched self image_files of
        Raised e \<Rightarrow> Raised e
      | No_Run \<Rightarrow> No_Run
      | Returned results \<Rightarrow>
          let t = aggregate (length image_files) results
                    \<lparr> groups = md5_dict self, completed = 0,
                      printed = [Started (length image_files)] \<rparr>
          in Returned (self\<lparr> md5_dict := groups t \<rparr>, printed t @ [AllDone]))"

text \<open>
  \<open>find_duplicates\<close>: the dictionary comprehension inserts every entry with more than one
  path into a new dictionary, in the order of \<open>self.md5_dict.items()\<close>.
\<close>

definition find_duplicates :: "finder \<Rightarrow> (string, string list) dict" where
  "find_duplicates self =
     foldl (\<lambda>duplicates (md5_value, paths).
              if length paths > 1 then dict_set duplicates md5_value paths else duplicates)
       [] (md5_dict self)"

text \<open>\<open>len(duplicates)\<close>, the number of duplicate groups that \<open>print_results\<close> reports.\<close>

definition found_duplicates_count :: "finder \<Rightarrow> nat" where
  "found_duplicates_count self = length (find_duplicates self)"

text \<open>The number of paths stored across all groups, and the number of failed digests.\<close>

definition total_paths :: "(string, string list) dict \<Rightarrow> nat" where
  "total_paths d = sum_list (map (\<lambda>(m, paths). length paths) d)"

definition failed :: "digest_result \<Rightarrow> bool" where
  "failed r \<longleftrightarrow> fst r = None"

text \<open>A small disk for examples: two files with the same bytes, one that differs.\<close>

definition demo_fs :: filesystem where
  "demo_fs = [''a.jpg'' \<mapsto> \<lparr> content = [1, 2], fault_at = None \<rparr>,
              ''b.png'' \<mapsto> \<lparr> content = [7], fault_at = None \<rparr>,
              ''c.jpg'' \<mapsto> \<lparr> content = [1, 2], fault_at = None \<rparr>]"

section \<open>The prune script: \<open>delete_file.py\<close>\<close>

subsection \<open>JSON values and the disk\<close>

text \<open>
  What \<open>json.loads\<close> returns. An object is a Python \<open>dict\<close>: an association list with
  distinct keys. A number with a fraction or an exponent is kept as its literal text.
\<close>

datatype json =
    JNull
  | JBool bool
  | JInt int
  | JFloat string
  | JStr string
  | JList "json list"
  | JObj "(string \<times> json) list"

text \<open>
  The disk as the script sees it: the paths that exist, the paths whose removal the
  operating system refuses, and the answer of \<open>os.path.exists\<close> for a value that is no
  string (a number is read as a file descriptor of the running process, other values raise
  \<open>TypeError\<close>). Different strings name different files. \<open>os.remove\<close> accepts only a
  path: for any other value it raises \<open>TypeError\<close>.
\<close>

record disk =
  present :: "string set"
  locked :: "string set"
  odd_exists :: "json \<Rightarrow> exc + bool"

definition os_path_exists :: "disk \<Rightarrow> json \<Rightarrow> exc + bool" where
  "os_path_exists d x = (case x of JStr p \<Rightarrow> Inr (p \<in> present d) | _ \<Rightarrow> odd_exists d x)"

definition os_remove :: "disk \<Rightarrow> json \<Rightarrow> exc + disk" where
  "os_remove d x =
     (case x of
        JStr p \<Rightarrow>
          if p \<notin> present d then Inl FileNotFoundError
          else if p \<in> locked d then Inl OSError
          else Inr (d\<lparr> present := present d - {p} \<rparr>)
      | _ \<Rightarrow> Inl TypeError)"

text \<open>\<open>except OSError\<close> also catches its subclass \<open>FileNotFoundError\<close>.\<close>

definition is_OSError :: "exc \<Rightarrow> bool" where
  "is_OSError e \<longleftrightarrow> e = OSError \<or> e = FileNotFoundError"

subsection \<open>The script\<close>

text \<open>What the script prints, one event per \<open>print\<close>.\<close>

datatype event =
    Warn_invalid_list string
  | Deleted json
  | Warn_missing json
  | Error_os json exc
  | Error_unknown json exc
  | Warn_no_duplicates
  | Error_file_not_found
  | Error_json_decode
  | Error_unexpected exc
  | Summary nat nat nat
  | Dump json

record prune =
  disk_of :: disk
  kept_files_data :: "(string, json) dict"
  files_deleted_count :: nat
  processed_md5_count :: nat
  console :: "event list"

definition start :: "disk \<Rightarrow> prune" where
  "start d = \<lparr> disk_of = d, kept_files_data = [], files_deleted_count = 0,
               processed_md5_count = 0, console = [] \<rparr>"

text \<open>The body of the inner \<open>try\<close>: it may raise.\<close>

definition try_delete :: "json \<Rightarrow> prune \<Rightarrow> exc + prune" where
  "try_delete file_to_delete s =
     (case os_path_exists (disk_of s) file_to_delete of
        Inl e \<Rightarrow> Inl e
      | Inr found \<Rightarrow>
          if found
          then (case os_remove (disk_of s) file_to_delete of
                  Inl e \<Rightarrow> Inl e
                | Inr d' \<Rightarrow>
                    Inr (s\<lparr> disk_of := d',
                           console := console s @ [Deleted file_to_delete],
                           files_deleted_count := files_deleted_count s + 1 \<rparr>))
          else Inr (s\<lparr> console := console s @ [Warn_missing file_to_delete] \<rparr>))"

text \<open>The \<open>try\<close> with its two handlers, \<open>except OSError\<close> and \<open>except Exception\<close>.\<close>

definition delete_one :: "json \<Rightarrow> prune \<Rightarrow> prune" where
  "delete_one file_to_delete s =
     (case try_delete file_to_delete s of
        Inr s' \<Rightarrow> s'
      | Inl e \<Rightarrow>
          if is_OSError e
          then s\<lparr> console := console s @ [Error_os file_to_delete e] \<rparr>
          else s\<lparr> console := console s @ [Error_unknown file_to_delete e] \<rparr>)"

text \<open>\<open>for file_to_delete in file_list[1:]\<close>\<close>

fun delete_rest :: "json list \<Rightarrow> prune \<Rightarrow> prune" where
  "delete_rest [] s = s"
| "delete_rest (file_to_delete # others) s = delete_rest others (delete_one file_to_delete s)"

text \<open>
  \<open>not file_list or not isinstance(file_list, list)\<close>: true for every value that is not a
  list, whatever its truth value, and for the empty list.
\<close>

definition invalid_list :: "json \<Rightarrow> bool" where
  "invalid_list file_list = (case file_list of JList xs \<Rightarrow> xs = [] | _ \<Rightarrow> True)"

definition items :: "json \<Rightarrow> json list" where
  "items file_list = (case file_list of JList xs \<Rightarrow> xs | _ \<Rightarrow> [])"

text \<open>One turn of the loop over \<open>data["duplicates"].items()\<close>.\<close>

definition prune_entry :: "string \<times> json \<Rightarrow> prune \<Rightarrow> prune" where
  "prune_entry entry s =
     (let md5_hash = fst entry; file_list = snd entry;
          s1 = s\<lparr> processed_md5_count := processed_md5_count s + 1 \<rparr>
      in if invalid_list file_list
         then s1\<lparr> console := console s1 @ [Warn_invalid_list md5_hash] \<rparr>
         else let first_file_path = hd (items file_list);
                  s2 = s1\<lparr> kept_files_data :=
                           dict_set (kept_files_data s1) md5_hash (JList [first_file_path]) \<rparr>
              in delete_rest (drop 1 (items file_list)) s2)"

fun prune_loop :: "(string \<times> json) list \<Rightarrow> prune \<Rightarrow> prune" where
  "prune_loop [] s = s"
| "prune_loop (entry # others) s = prune_loop others (prune_entry entry s)"

text \<open>
  \<open>"duplicates" in data and isinstance(data["duplicates"], dict)\<close>, for any value
  \<open>json.loads\<close> may return: the entries when the test holds, \<open>None\<close> when it fails, and
  the exception when \<open>in\<close> or the subscript raises.
\<close>

definition has_duplicates :: "json \<Rightarrow> exc + (string \<times> json) list option" where
  "has_duplicates data =
     (case data of
        JObj kv \<Rightarrow>
          (case map_of kv ''duplicates'' of
             Some (JObj entries) \<Rightarrow> Inr (Some entries)
           | _ \<Rightarrow> Inr None)
      | JList xs \<Rightarrow> if JStr ''duplicates'' \<in> set xs then Inl TypeError else Inr None
      | JStr s \<Rightarrow> if sublist ''duplicates'' s then Inl TypeError else Inr None
      | _ \<Rightarrow> Inl TypeError)"

definition new_json_structure :: "prune \<Rightarrow> json" where
  "new_json_structure s =
     JObj [(''found_duplicates_count'', JInt (int (length (kept_files_data s)))),
           (''duplicates'', JObj (kept_files_data s))]"

text \<open>Step 6 and the output: the summary lines and the dump of the new structure.\<close>

definition finish :: "prune \<Rightarrow> prune \<times> json option" where
  "finish s =
     (s\<lparr> console := console s
          @ [Summary (processed_md5_count s) (length (kept_files_data s)) (files_deleted_count s),
             Dump (new_json_structure s)] \<rparr>,
      Some (new_json_structure s))"

text \<open>Reading the report file: it is missing, it is no JSON, or it loads.\<close>

datatype load = File_missing | Bad_json | Loaded json

text \<open>
  The whole script: the final state, and the new structure when one was built (the outer
  handlers print an error and build none).
\<close>

definition delete_file :: "load \<Rightarrow> disk \<Rightarrow> prune \<times> json option" where
  "delete_file ld d =
     (case ld of
        File_missing \<Rightarrow> ((start d)\<lparr> console := [Error_file_not_found] \<rparr>, None)
      | Bad_json \<Rightarrow> ((start d)\<lparr> console := [Error_json_decode] \<rparr>, None)
      | Loaded data \<Rightarrow>
          (case has_duplicates data of
             Inl e \<Rightarrow> ((start d)\<lparr> console := [Error_unexpected e] \<rparr>, None)
           | Inr None \<Rightarrow> finish ((start d)\<lparr> console := [Warn_no_duplicates] \<rparr>)
           | Inr (Some entries) \<Rightarrow> finish (prune_loop entries (start d))))"

text \<open>
  The deletion candidates of a report, in the order the script meets them: for every entry
  with a valid list, the elements after the first.
\<close>

definition candidates :: "(string \<times> json) list \<Rightarrow> json list" where
  "candidates entries =
     concat (map (\<lambda>entry. if invalid_list (snd entry) then [] else drop 1 (items (snd entry)))
       entries)"

text \<open>A value the script would really delete on this disk: a path that exists and is not locked.\<close>

definition removable :: "disk \<Rightarrow> json \<Rightarrow> bool" where
  "removable d x = (case x of JStr p \<Rightarrow> p \<in> present d \<and> p \<notin> locked d | _ \<Rightarrow> False)"

text \<open>An example: a disk, and a report with a good entry, an empty one and a missing file.\<close>

definition demo_disk :: disk where
  "demo_disk = \<lparr> present = {''a.jpg'', ''c.jpg'', ''d.gif'', ''f.gif''}, locked = {''f.gif''},
                 odd_exists = (\<lambda>x. Inl TypeError) \<rparr>"

definition demo_report :: json where
  "demo_report =
     JObj [(''found_duplicates_count'', JInt 3),
           (''duplicates'',
            JObj [(''aa'', JList [JStr ''a.jpg'', JStr ''c.jpg'']),
                  (''bb'', JList []),
                  (''cc'', JList [JStr ''d.gif'', JStr ''e.gif'', JStr ''f.gif''])])]"

subsection \<open>The script on a console that cannot print every text\<close>

text \<open>
  The functions above take every \<open>print\<close> to succeed. On a real console \<open>print\<close> raises
  \<open>UnicodeEncodeError\<close> when the encoding has no code for a character of the text: a name
  outside the encoding of the console, or a lone surrogate, which is how Python reads a file
  name that is not UTF-8. The messages of the script are fixed text around a key or a path,
  so whether a message can be printed depends on that value alone: \<open>enc x\<close> says that the
  console can print the value \<open>x\<close>. The functions below are the same script with this
  failure in it; an exception that is raised carries the state at that moment.
\<close>

definition say :: "(json \<Rightarrow> bool) \<Rightarrow> json \<Rightarrow> event \<Rightarrow> prune \<Rightarrow> exc \<times> prune + prune" where
  "say enc x ev s =
     (if enc x then Inr (s\<lparr> console := console s @ [ev] \<rparr>) else Inl (UnicodeEncodeError, s))"

text \<open>The body of the inner \<open>try\<close>: the counter is advanced after the message.\<close>

definition try_delete_c :: "(json \<Rightarrow> bool) \<Rightarrow> json \<Rightarrow> prune \<Rightarrow> exc \<times> prune + prune" where
  "try_delete_c enc file_to_delete s =
     (case os_path_exists (disk_of s) file_to_delete of
        Inl e \<Rightarrow> Inl (e, s)
      | Inr found \<Rightarrow>
          if found
          then (case os_remove (disk_of s) file_to_delete of
                  Inl e \<Rightarrow> Inl (e, s)
                | Inr d' \<Rightarrow>
                    (case say enc file_to_delete (Deleted file_to_delete) (s\<lparr> disk_of := d' \<rparr>) of
                       Inl r \<Rightarrow> Inl r
                     | Inr s' \<Rightarrow>
                         Inr (s'\<lparr> files_deleted_count := files_deleted_count s' + 1 \<rparr>)))
          else say enc file_to_delete (Warn_missing file_to_delete) s)"

text \<open>
  The two handlers print the path again: when that fails, the new exception leaves the
  \<open>try\<close> statement.
\<close>

definition delete_one_c :: "(json \<Rightarrow> bool) \<Rightarrow> json \<Rightarrow> prune \<Rightarrow> exc \<times> prune + prune" where
  "delete_one_c enc file_to_delete s =
     (case try_delete_c enc file_to_delete s of
        Inr s' \<Rightarrow> Inr s'
      | Inl (e, s') \<Rightarrow>
          say enc file_to_delete
            (if is_OSError e then Error_os file_to_delete e else Error_unknown file_to_delete e)
            s')"

fun delete_rest_c :: "(json \<Rightarrow> bool) \<Rightarrow> json list \<Rightarrow> prune \<Rightarrow> exc \<times> prune + prune" where
  "delete_rest_c enc [] s = Inr s"
| "delete_rest_c enc (file_to_delete # others) s =
     (case delete_one_c enc file_to_delete s of
        Inl r \<Rightarrow> Inl r
      | Inr s' \<Rightarrow> delete_rest_c enc others s')"

definition prune_entry_c ::
  "(json \<Rightarrow> bool) \<Rightarrow> string \<times> json \<Rightarrow> prune \<Rightarrow> exc \<times> prune + prune" where
  "prune_entry_c enc entry s =
     (let md5_hash = fst entry; file_list = snd entry;
          s1 = s\<lparr> processed_md5_count := processed_md5_count s + 1 \<rparr>
      in if invalid_list file_list
         then say enc (JStr md5_hash) (Warn_invalid_list md5_hash) s1
         else let first_file_path = hd (items file_list);
                  s2 = s1\<lparr> kept_files_data :=
                           dict_set (kept_files_data s1) md5_hash (JList [first_file_path]) \<rparr>
              in delete_rest_c enc (drop 1 (items file_list)) s2)"

fun prune_loop_c ::
  "(json \<Rightarrow> bool) \<Rightarrow> (string \<times> json) list \<Rightarrow> prune \<Rightarrow> exc \<times> prune + prune" where
  "prune_loop_c enc [] s = Inr s"
| "prune_loop_c enc (entry # others) s =
     (case prune_entry_c enc entry s of
        Inl r \<Rightarrow> Inl r
      | Inr s' \<Rightarrow> prune_loop_c enc others s')"

text \<open>
  The whole script. An exception that leaves the loop reaches the outermost handler, which
  prints it; no new structure is built then.
\<close>

definition delete_file_c :: "(json \<Rightarrow> bool) \<Rightarrow> load \<Rightarrow> disk \<Rightarrow> prune \<times> json option" where
  "delete_file_c enc ld d =
     (case ld of
        File_missing \<Rightarrow> ((start d)\<lparr> console := [Error_file_not_found] \<rparr>, None)
      | Bad_json \<Rightarrow> ((start d)\<lparr> console := [Error_json_decode] \<rparr>, None)
      | Loaded data \<Rightarrow>
          (case has_duplicates data of
             Inl e \<Rightarrow> ((start d)\<lparr> console := [Error_unexpected e] \<rparr>, None)
           | Inr None \<Rightarrow> finish ((start d)\<lparr> console := [Warn_no_duplicates] \<rparr>)
           | Inr (Some entries) \<Rightarrow>
               (case prune_loop_c enc entries (start d) of
                  Inl (e, s) \<Rightarrow> (s\<lparr> console := console s @ [Error_unexpected e] \<rparr>, None)
                | Inr s \<Rightarrow> finish s)))"

text \<open>The console can print every message the script has for this report.\<close>

definition printable :: "(json \<Rightarrow> bool) \<Rightarrow> (string \<times> json) list \<Rightarrow> bool" where
  "printable enc entries \<longleftrightarrow>
     list_all (\<lambda>entry. if invalid_list (snd entry) then enc (JStr (fst entry))
                       else list_all enc (drop 1 (items (snd entry)))) entries"

text \<open>
  An example: a console for ASCII text, and a report with a file name that is not ASCII (the
  byte FF in it is not UTF-8 either).
\<close>

definition ascii_console :: "json \<Rightarrow> bool" where
  "ascii_console x = (case x of JStr p \<Rightarrow> list_all (\<lambda>c. of_char c < (128 :: nat)) p | _ \<Rightarrow> True)"

definition odd_report :: json where
  "odd_report =
     JObj [(''found_duplicates_count'', JInt 2),
           (''duplicates'',
            JObj [(''aa'', JList [JStr ''a.jpg'', JStr [CHR ''c'', CHR 0xFF, CHR ''.'', CHR ''j'']]),
                  (''cc'', JList [JStr ''d.gif'', JStr ''f.gif''])])]"

definition odd_disk :: disk where
  "odd_disk = \<lparr> present = {''a.jpg'', [CHR ''c'', CHR 0xFF, CHR ''.'', CHR ''j''], ''d.gif'', ''f.gif''},
                locked = {}, odd_exists = (\<lambda>x. Inl TypeError) \<rparr>"

section \<open>Properties of the scanner\<close>

subsection \<open>The digest of a file\<close>

lemma take_drop_chunk: "take n xs @ drop (length (take n xs)) xs = xs"
  by (metis append_take_drop_id length_take min.commute take_all_iff linorder_le_cases min_def)

lemma md5_loop_healthy:
  assumes law: "hashlib_law h" and ok: "fault_at f = None"
  shows "md5_loop h f pos st = Inr (md5_update h st (drop pos (content f)))"
  using assms
proof (induction h f pos st rule: md5_loop.induct)
  case (1 h f pos st)
  let ?chunk = "take CHUNK (drop pos (content f))"
  have r: "read_chunk f pos = Inr ?chunk"
    using "1.prems" by (simp add: read_chunk_def)
  show ?case
  proof (cases "?chunk = []")
    case True
    then have "drop pos (content f) = []"
      by (simp add: CHUNK_def)
    moreover have "md5_update h st [] = st"
      using "1.prems" by (simp add: hashlib_law_def)
    ultimately show ?thesis
      using r True by (subst md5_loop.simps) simp
  next
    case False
    have step: "md5_loop h f pos st = md5_loop h f (pos + length ?chunk) (md5_update h st ?chunk)"
      using r False by (subst md5_loop.simps) simp
    have ih: "md5_loop h f (pos + length ?chunk) (md5_update h st ?chunk)
        = Inr (md5_update h (md5_update h st ?chunk) (drop (pos + length ?chunk) (content f)))"
      using "1.IH" [OF r False] "1.prems" by simp
    have glue: "md5_update h (md5_update h st ?chunk) (drop (pos + length ?chunk) (content f))
        = md5_update h st (?chunk @ drop (pos + length ?chunk) (content f))"
      using "1.prems" by (simp add: hashlib_law_def)
    have "drop (pos + length ?chunk) (content f) = drop (length ?chunk) (drop pos (content f))"
      by (simp add: add.commute)
    then have "?chunk @ drop (pos + length ?chunk) (content f) = drop pos (content f)"
      using take_drop_chunk [of CHUNK "drop pos (content f)"] by simp
    with step ih glue show ?thesis
      by simp
  qed
qed

lemma hexdigit_lower: "hexdigit n \<in> set ''0123456789abcdef''"
  unfolding hexdigit_def by (rule nth_mem) simp

lemma hexdigest_shape:
  assumes "hashlib_law h"
  shows "length (hexdigest h st) = 32 \<and> set (hexdigest h st) \<subseteq> set ''0123456789abcdef''"
proof -
  have len16: "length (md5_digest h st) = 16"
    using assms by (simp add: hashlib_law_def)
  have "length (concat (map hex_byte bs)) = 2 * length bs" for bs
    by (induction bs) (simp_all add: hex_byte_def)
  with len16 have "length (hexdigest h st) = 32"
    by (simp add: hexdigest_def)
  moreover have "set (hex_byte b) \<subseteq> set ''0123456789abcdef''" for b
    using hexdigit_lower [of "unat b div 16"] hexdigit_lower [of "unat b mod 16"]
    by (simp add: hex_byte_def)
  then have "set (hexdigest h st) \<subseteq> set ''0123456789abcdef''"
    unfolding hexdigest_def by (auto simp del: set_simps)
  ultimately show ?thesis
    by simp
qed

lemma calculate_md5_healthy:
  assumes "hashlib_law h" and "fs p = Some f" and "fault_at f = None"
  shows "calculate_md5 h fs p = (Some (md5_whole h (content f)), p)"
  using assms md5_loop_healthy [OF assms(1) assms(3), of 0 "md5_new h"]
  by (simp add: calculate_md5_def md5_whole_def)

lemma toy_hasher_law: "hashlib_law toy_hasher"
  by (simp add: hashlib_law_def toy_hasher_def)

text \<open>
  C1. Two files with the same bytes get the same fingerprint: for a file that can be read to
  its end, \<open>calculate_md5\<close> feeds 4096-byte chunks to the hash object and returns exactly the
  hex digest of the whole content, a string of 32 lowercase hexadecimal digits; so the result
  depends on the content alone, whatever the path and whatever else the file system holds.
\<close>

theorem calculate_md5_content_only:
  assumes "hashlib_law h"
    and "fs p = Some f" and "fault_at f = None"
    and "fs' q = Some g" and "fault_at g = None"
    and "content f = content g"
  shows "calculate_md5 h fs p = (Some (md5_whole h (content f)), p)
    \<and> fst (calculate_md5 h fs' q) = fst (calculate_md5 h fs p)
    \<and> length (md5_whole h (content f)) = 32
    \<and> set (md5_whole h (content f)) \<subseteq> set ''0123456789abcdef''"
proof -
  have a: "calculate_md5 h fs p = (Some (md5_whole h (content f)), p)"
    using assms(1-3) by (rule calculate_md5_healthy)
  have b: "calculate_md5 h fs' q = (Some (md5_whole h (content g)), q)"
    using assms(1,4,5) by (rule calculate_md5_healthy)
  have c: "length (md5_whole h (content f)) = 32
      \<and> set (md5_whole h (content f)) \<subseteq> set ''0123456789abcdef''"
    unfolding md5_whole_def using assms(1) by (rule hexdigest_shape)
  from a b c assms(6) show ?thesis
    by simp
qed

theorem calculate_md5_content_only_witness:
  "hashlib_law toy_hasher
   \<and> [''a.jpg'' \<mapsto> \<lparr>content = [1, 2, 3], fault_at = None\<rparr>] ''a.jpg''
       = Some \<lparr>content = [1, 2, 3], fault_at = None\<rparr>
   \<and> [''b.png'' \<mapsto> \<lparr>content = [9], fault_at = None\<rparr>,
       ''c.jpg'' \<mapsto> \<lparr>content = [1, 2, 3], fault_at = None\<rparr>] ''c.jpg''
       = Some \<lparr>content = [1, 2, 3], fault_at = None\<rparr>
   \<and> calculate_md5 toy_hasher [''a.jpg'' \<mapsto> \<lparr>content = [1, 2, 3], fault_at = None\<rparr>] ''a.jpg''
       = (Some ''00000000000000000000000000000006'', ''a.jpg'')
   \<and> fst (calculate_md5 toy_hasher
         [''b.png'' \<mapsto> \<lparr>content = [9], fault_at = None\<rparr>,
          ''c.jpg'' \<mapsto> \<lparr>content = [1, 2, 3], fault_at = None\<rparr>] ''c.jpg'')
       = Some ''00000000000000000000000000000006''"
proof -
  have w: "md5_whole toy_hasher [1, 2, 3] = ''00000000000000000000000000000006''"
    by (simp add: md5_whole_def hexdigest_def toy_hasher_def hex_byte_def hexdigit_def)
  show ?thesis
    using calculate_md5_content_only [OF toy_hasher_law,
        of "[''a.jpg'' \<mapsto> \<lparr>content = [1, 2, 3], fault_at = None\<rparr>]" "''a.jpg''"
           "\<lparr>content = [1, 2, 3], fault_at = None\<rparr>"
           "[''b.png'' \<mapsto> \<lparr>content = [9], fault_at = None\<rparr>,
             ''c.jpg'' \<mapsto> \<lparr>content = [1, 2, 3], fault_at = None\<rparr>]" "''c.jpg''"
           "\<lparr>content = [1, 2, 3], fault_at = None\<rparr>"]
      toy_hasher_law w
    by simp
qed

subsection \<open>The worker pool hands over every result once\<close>

lemma mset_without_nth:
  assumes "i < length xs"
  shows "mset (take i xs @ drop (Suc i) xs) + {#xs ! i#} = mset xs"
proof -
  have "xs = take i xs @ xs ! i # drop (Suc i) xs"
    using assms by (rule id_take_nth_drop)
  then have "mset xs = mset (take i xs @ xs ! i # drop (Suc i) xs)"
    by simp
  then show ?thesis
    by simp
qed

lemma pool_step_conserves:
  assumes "pool_step k h fs a st = Some st'"
  shows "image_mset (apsnd (calculate_md5 h fs)) (mset (pending st') + mset (running st'))
           + mset (finished st') + mset (handed st')
       = image_mset (apsnd (calculate_md5 h fs)) (mset (pending st) + mset (running st))
           + mset (finished st) + mset (handed st)"
proof (cases a)
  case Start
  with assms show ?thesis
    by (auto simp: pool_step_def split: list.splits if_splits)
next
  case (Finish i)
  with assms have i: "i < length (running st)"
    and st': "st' = st\<lparr> running := take i (running st) @ drop (Suc i) (running st),
                 finished := finished st
                   @ [(fst (running st ! i), calculate_md5 h fs (snd (running st ! i)))] \<rparr>"
    by (auto simp: pool_step_def split: if_splits)
  have "mset (running st)
      = mset (take i (running st) @ drop (Suc i) (running st)) + {#running st ! i#}"
    using mset_without_nth [OF i] by simp
  then show ?thesis
    by (simp add: st' apsnd_def map_prod_def case_prod_beta)
next
  case (Yield j)
  with assms have j: "j < length (finished st)"
    and st': "st' = st\<lparr> finished := take j (finished st) @ drop (Suc j) (finished st),
                 handed := handed st @ [finished st ! j] \<rparr>"
    by (auto simp: pool_step_def split: if_splits)
  have "mset (finished st)
      = mset (take j (finished st) @ drop (Suc j) (finished st)) + {#finished st ! j#}"
    using mset_without_nth [OF j] by simp
  then show ?thesis
    by (simp add: st')
qed

lemma pool_exec_conserves:
  assumes "pool_exec k h fs sched st = Some st'"
  shows "image_mset (apsnd (calculate_md5 h fs)) (mset (pending st') + mset (running st'))
           + mset (finished st') + mset (handed st')
       = image_mset (apsnd (calculate_md5 h fs)) (mset (pending st) + mset (running st))
           + mset (finished st) + mset (handed st)"
  using assms
proof (induction sched arbitrary: st)
  case Nil
  then show ?case by simp
next
  case (Cons a sched)
  then obtain st1 where s: "pool_step k h fs a st = Some st1"
    and r: "pool_exec k h fs sched st1 = Some st'"
    by (auto split: option.splits)
  show ?case
    using Cons.IH [OF r] pool_step_conserves [OF s] by (rule trans)
qed

lemma complete_run_handed:
  assumes "pool_exec k h fs sched (submit_all image_files) = Some st" and "all_done st"
  shows "mset (handed st)
    = mset (map (apsnd (calculate_md5 h fs)) (zip [0..<length image_files] image_files))"
  using pool_exec_conserves [OF assms(1)] assms(2)
  by (simp add: all_done_def submit_all_def)






lemma map_snd_apsnd: "map snd (map (apsnd f) zs) = map f (map snd zs)"
  by (induction zs) auto

lemma map_fst_apsnd: "map fst (map (apsnd f) zs) = map fst zs"
  by (induction zs) auto

lemma complete_run_results:
  assumes "pool_exec k h fs sched (submit_all image_files) = Some st" and "all_done st"
  shows "mset (as_completed st) = mset (map (calculate_md5 h fs) image_files)"
    and "mset (map fst (handed st)) = mset [0..<length image_files]"
    and "\<forall>(i, r) \<in> set (handed st). i < length image_files \<and> r = calculate_md5 h fs (image_files ! i)"
proof -
  let ?zs = "zip [0..<length image_files] image_files"
  have f: "mset (handed st) = mset (map (apsnd (calculate_md5 h fs)) ?zs)"
    using assms by (rule complete_run_handed)
  have "mset (map snd (handed st)) = mset (map snd (map (apsnd (calculate_md5 h fs)) ?zs))"
    using f by (metis mset_map)
  also have "map snd (map (apsnd (calculate_md5 h fs)) ?zs)
      = map (calculate_md5 h fs) (map snd ?zs)"
    by (rule map_snd_apsnd)
  also have "map snd ?zs = image_files"
    by (simp add: map_snd_zip)
  finally show "mset (as_completed st) = mset (map (calculate_md5 h fs) image_files)"
    by (simp add: as_completed_def)
  have "mset (map fst (handed st)) = mset (map fst (map (apsnd (calculate_md5 h fs)) ?zs))"
    using f by (metis mset_map)
  also have "map fst (map (apsnd (calculate_md5 h fs)) ?zs) = map fst ?zs"
    by (rule map_fst_apsnd)
  finally show "mset (map fst (handed st)) = mset [0..<length image_files]"
    by simp
  have "set (handed st) = set (map (apsnd (calculate_md5 h fs)) ?zs)"
    using f by (rule mset_eq_setD)
  then show "\<forall>(i, r) \<in> set (handed st). i < length image_files \<and> r = calculate_md5 h fs (image_files ! i)"
    by (auto simp: set_zip)
qed

lemma future_results_Returned:
  "future_results h fs dflt sched self image_files = Returned rs \<longleftrightarrow>
     (\<exists>k st. pool_size dflt (max_workers self) = Inr k
        \<and> pool_exec k h fs sched (submit_all image_files) = Some st \<and> all_done st
        \<and> rs = as_completed st)"
  by (auto simp: future_results_def split: sum.splits option.splits)

lemma future_results_mset:
  assumes "future_results h fs dflt sched self image_files = Returned rs"
  shows "mset rs = mset (map (calculate_md5 h fs) image_files)"
  using assms complete_run_results(1) by (auto simp: future_results_Returned)

lemma process_images_of_results:
  assumes "future_results h fs dflt sched self image_files = Returned rs"
  shows "process_images h fs dflt sched self image_files
     = Returned (self\<lparr> md5_dict := groups (aggregate (length image_files) rs
                   \<lparr> groups = md5_dict self, completed = 0,
                     printed = [Started (length image_files)] \<rparr>) \<rparr>,
                 printed (aggregate (length image_files) rs
                   \<lparr> groups = md5_dict self, completed = 0,
                     printed = [Started (length image_files)] \<rparr>) @ [AllDone])"
  using assms by (simp add: process_images_def Let_def)

lemma process_images_Returned:
  assumes "process_images h fs dflt sched self image_files = Returned (self', out)"
  shows "\<exists>rs. future_results h fs dflt sched self image_files = Returned rs
     \<and> self' = self\<lparr> md5_dict := groups (aggregate (length image_files) rs
                   \<lparr> groups = md5_dict self, completed = 0,
                     printed = [Started (length image_files)] \<rparr>) \<rparr>
     \<and> out = printed (aggregate (length image_files) rs
                   \<lparr> groups = md5_dict self, completed = 0,
                     printed = [Started (length image_files)] \<rparr>) @ [AllDone]"
proof (cases "future_results h fs dflt sched self image_files")
  case (Raised e)
  with assms show ?thesis by (simp add: process_images_def)
next
  case No_Run
  with assms show ?thesis by (simp add: process_images_def)
next
  case (Returned rs)
  with assms process_images_of_results [OF Returned] show ?thesis
    by simp
qed


lemma demo_digests:
  "calculate_md5 toy_hasher demo_fs ''a.jpg'' = (Some ''00000000000000000000000000000003'', ''a.jpg'')"
  "calculate_md5 toy_hasher demo_fs ''b.png'' = (Some ''00000000000000000000000000000007'', ''b.png'')"
  "calculate_md5 toy_hasher demo_fs ''c.jpg'' = (Some ''00000000000000000000000000000003'', ''c.jpg'')"
  "calculate_md5 toy_hasher demo_fs ''x.jpg'' = (None, ''x.jpg'')"
  "calculate_md5 toy_hasher demo_fs ''y.jpg'' = (None, ''y.jpg'')"
proof -
  have w: "md5_whole toy_hasher [1, 2] = ''00000000000000000000000000000003''"
    "md5_whole toy_hasher [7] = ''00000000000000000000000000000007''"
    by (simp_all add: md5_whole_def hexdigest_def toy_hasher_def hex_byte_def hexdigit_def)
  show "calculate_md5 toy_hasher demo_fs ''a.jpg'' = (Some ''00000000000000000000000000000003'', ''a.jpg'')"
    using calculate_md5_healthy [OF toy_hasher_law, of demo_fs "''a.jpg''"
        "\<lparr> content = [1, 2], fault_at = None \<rparr>"] w
    by (simp add: demo_fs_def)
  show "calculate_md5 toy_hasher demo_fs ''b.png'' = (Some ''00000000000000000000000000000007'', ''b.png'')"
    using calculate_md5_healthy [OF toy_hasher_law, of demo_fs "''b.png''"
        "\<lparr> content = [7], fault_at = None \<rparr>"] w
    by (simp add: demo_fs_def)
  show "calculate_md5 toy_hasher demo_fs ''c.jpg'' = (Some ''00000000000000000000000000000003'', ''c.jpg'')"
    using calculate_md5_healthy [OF toy_hasher_law, of demo_fs "''c.jpg''"
        "\<lparr> content = [1, 2], fault_at = None \<rparr>"] w
    by (simp add: demo_fs_def)
  show "calculate_md5 toy_hasher demo_fs ''x.jpg'' = (None, ''x.jpg'')"
    by (simp add: calculate_md5_def demo_fs_def)
  show "calculate_md5 toy_hasher demo_fs ''y.jpg'' = (None, ''y.jpg'')"
    by (simp add: calculate_md5_def demo_fs_def)
qed




subsection \<open>Aggregation\<close>

lemma dict_append_Nil: "dict_append [] k v = [(k, [v])]"
  by (simp add: dict_append_def dict_get_def)

lemma dict_append_Cons:
  "dict_append ((k', ps) # d) k v
     = (if k' = k then (k', ps @ [v]) # d else (k', ps) # dict_append d k v)"
  by (simp add: dict_append_def dict_get_def)

lemma total_paths_dict_append: "total_paths (dict_append d k v) = Suc (total_paths d)"
proof (induction d)
  case Nil
  show ?case by (simp add: dict_append_Nil total_paths_def)
next
  case (Cons e d)
  obtain k' ps where e: "e = (k', ps)" by (cases e)
  show ?case
    using Cons.IH by (simp add: e dict_append_Cons total_paths_def)
qed

lemma keys_dict_set:
  "map fst (dict_set d k v) = (if k \<in> set (map fst d) then map fst d else map fst d @ [k])"
  by (induction d) (auto simp: rev_image_eqI)

lemma distinct_dict_set: "distinct (map fst d) \<Longrightarrow> distinct (map fst (dict_set d k v))"
  by (simp add: keys_dict_set)

lemma dict_get_dict_set:
  "dict_get (dict_set d k vs) m = (if m = k then vs else dict_get d m)"
  by (induction d) (auto simp: dict_get_def)

lemma dict_get_dict_append:
  "dict_get (dict_append d k v) m = (if m = k then dict_get d k @ [v] else dict_get d m)"
  by (simp add: dict_append_def dict_get_dict_set)

lemma distinct_dict_append: "distinct (map fst d) \<Longrightarrow> distinct (map fst (dict_append d k v))"
  by (simp add: dict_append_def distinct_dict_set)

lemma in_dict_append_nonempty:
  "(m, ps) \<in> set (dict_append d k v) \<Longrightarrow> (m, ps) \<in> set d \<or> ps \<noteq> []"
proof (induction d)
  case Nil
  then show ?case by (simp add: dict_append_Nil)
next
  case (Cons e d)
  obtain k' qs where e: "e = (k', qs)" by (cases e)
  show ?case
    using Cons by (auto simp: e dict_append_Cons split: if_splits)
qed

text \<open>A result is stored when its fingerprint is a non-empty string.\<close>

lemma consume_groups:
  "groups (consume n r t)
     = (case fst r of
          None \<Rightarrow> groups t
        | Some m \<Rightarrow> if m \<noteq> [] then dict_append (groups t) m (snd r) else groups t)"
  by (simp add: consume_def Let_def)

lemma consume_completed: "completed (consume n r t) = Suc (completed t)"
  by (simp add: consume_def Let_def)

lemma aggregate_completed: "completed (aggregate n rs t) = completed t + length rs"
  by (induction rs arbitrary: t) (simp_all add: consume_completed)

lemma aggregate_total_paths:
  "total_paths (groups (aggregate n rs t))
     = total_paths (groups t) + length (filter (\<lambda>r. \<exists>m. fst r = Some m \<and> m \<noteq> []) rs)"
proof (induction rs arbitrary: t)
  case Nil
  show ?case by simp
next
  case (Cons r rs)
  show ?case
    by (cases "fst r") (simp_all add: Cons.IH consume_groups total_paths_dict_append)
qed

lemma aggregate_distinct:
  "distinct (map fst (groups t)) \<Longrightarrow> distinct (map fst (groups (aggregate n rs t)))"
proof (induction rs arbitrary: t)
  case Nil
  then show ?case by simp
next
  case (Cons r rs)
  have "distinct (map fst (groups (consume n r t)))"
    using Cons.prems by (cases "fst r") (simp_all add: consume_groups distinct_dict_append)
  then show ?case
    using Cons.IH by simp
qed

lemma aggregate_group:
  assumes "m \<noteq> []"
  shows "dict_get (groups (aggregate n rs t)) m
     = dict_get (groups t) m @ map snd (filter (\<lambda>r. fst r = Some m) rs)"
proof (induction rs arbitrary: t)
  case Nil
  show ?case by simp
next
  case (Cons r rs)
  show ?case
    using assms by (cases "fst r") (auto simp: Cons.IH consume_groups dict_get_dict_append)
qed

lemma aggregate_keys_nonempty:
  assumes "\<forall>(m, ps) \<in> set (groups t). m \<noteq> []"
  shows "\<forall>(m, ps) \<in> set (groups (aggregate n rs t)). m \<noteq> []"
  using assms
proof (induction rs arbitrary: t)
  case Nil
  then show ?case by simp
next
  case (Cons r rs)
  have k: "fst ` set (dict_set d k v) \<subseteq> insert k (fst ` set d)" for d :: "(string, string list) dict" and k v
    using keys_dict_set [of d k v] by (metis (no_types, lifting) insert_iff list.set_map
        rotate1.simps(2) set_rotate1 subsetI list.simps(15))
  have "\<forall>(m, ps) \<in> set (groups (consume n r t)). m \<noteq> []"
  proof (cases "fst r")
    case None
    then show ?thesis using Cons.prems by (simp add: consume_groups)
  next
    case (Some m)
    show ?thesis
    proof (cases "m = []")
      case True
      then show ?thesis using Some Cons.prems by (simp add: consume_groups)
    next
      case False
      have "fst ` set (dict_append (groups t) m (snd r)) \<subseteq> insert m (fst ` set (groups t))"
        unfolding dict_append_def by (rule k)
      then show ?thesis
        using Some False Cons.prems by (fastforce simp: consume_groups)
    qed
  qed
  then show ?case
    using Cons.IH by simp
qed

lemma total_paths_empty: "total_paths [] = 0"
  by (simp add: total_paths_def)

lemma calculate_md5_path: "snd (calculate_md5 h fs p) = p"
  by (simp add: calculate_md5_def split: option.splits sum.splits)

lemma digest_nonempty:
  assumes "hashlib_law h" and "fst (calculate_md5 h fs p) = Some m"
  shows "m \<noteq> []"
proof -
  from assms(2) obtain st where "m = hexdigest h st"
    by (auto simp: calculate_md5_def split: option.splits sum.splits)
  then have "length m = 32"
    using hexdigest_shape [OF assms(1)] by simp
  then show ?thesis
    by auto
qed

lemma length_filter_mset: "mset xs = mset ys \<Longrightarrow> length (filter P xs) = length (filter P ys)"
  by (metis mset_filter size_mset)

lemma paths_of_digest:
  "map snd (filter (\<lambda>r. fst r = Some m) (map (calculate_md5 h fs) ps))
     = filter (\<lambda>p. fst (calculate_md5 h fs p) = Some m) ps"
  by (induction ps) (simp_all add: calculate_md5_path)

text \<open>
  C3. After \<open>process_images\<close> has run on a fresh finder, the number of paths stored across
  all groups plus the number of input files whose digest failed is the number of input
  files. The keys of the dictionary are distinct, and the group of a fingerprint holds
  exactly the input paths with that fingerprint (as often as they were given): a path whose
  digest succeeded is in the group of its fingerprint and in no other, a path whose digest
  failed is in none.
\<close>

theorem aggregation_conserves_files:
  assumes "hashlib_law h"
    and "process_images h fs dflt sched (init_finder mw) image_files = Returned (self', out)"
  shows "total_paths (md5_dict self')
           + length (filter failed (map (calculate_md5 h fs) image_files))
         = length image_files
    \<and> distinct (map fst (md5_dict self'))
    \<and> (\<forall>(m, paths) \<in> set (md5_dict self').
          mset paths = mset (filter (\<lambda>p. fst (calculate_md5 h fs p) = Some m) image_files))"
proof -
  let ?t0 = "\<lparr> groups = [], completed = 0, printed = [Started (length image_files)] \<rparr>"
  from process_images_Returned [OF assms(2)] obtain rs where
    fr: "future_results h fs dflt sched (init_finder mw) image_files = Returned rs"
    and d: "md5_dict self' = groups (aggregate (length image_files) rs ?t0)"
    by (auto simp: init_finder_def)
  let ?rs = "rs"
  let ?cs = "map (calculate_md5 h fs) image_files"
  have ms: "mset ?rs = mset ?cs"
    using fr by (rule future_results_mset)
  have len: "length ?rs = length image_files"
    using ms by (metis length_map size_mset)
  have stored: "(\<exists>m. fst r = Some m \<and> m \<noteq> []) \<longleftrightarrow> \<not> failed r" if "r \<in> set ?rs" for r
  proof -
    from that have "r \<in> set ?cs"
      using ms by (metis mset_eq_setD)
    then obtain p where "r = calculate_md5 h fs p"
      by auto
    then show ?thesis
      using digest_nonempty [OF assms(1), of fs p] by (auto simp: failed_def)
  qed
  have "total_paths (md5_dict self')
      = length (filter (\<lambda>r. \<exists>m. fst r = Some m \<and> m \<noteq> []) ?rs)"
    using total_paths_empty by (simp add: d aggregate_total_paths)
  also have "\<dots> = length (filter (\<lambda>r. \<not> failed r) ?rs)"
    using stored by (intro arg_cong [where f = length] filter_cong) auto
  finally have "total_paths (md5_dict self') + length (filter failed ?rs) = length ?rs"
    using sum_length_filter_compl [of failed ?rs] by simp
  moreover have "length (filter failed ?rs) = length (filter failed ?cs)"
    using ms by (rule length_filter_mset)
  ultimately have conserve: "total_paths (md5_dict self') + length (filter failed ?cs)
      = length image_files"
    using len by simp
  have dist: "distinct (map fst (md5_dict self'))"
    unfolding d by (rule aggregate_distinct) simp
  have keys: "\<forall>(m, ps) \<in> set (md5_dict self'). m \<noteq> []"
    unfolding d by (rule aggregate_keys_nonempty) simp
  have grp: "mset paths = mset (filter (\<lambda>p. fst (calculate_md5 h fs p) = Some m) image_files)"
    if "(m, paths) \<in> set (md5_dict self')" for m paths
  proof -
    have ne: "m \<noteq> []"
      using keys that by auto
    have "map_of (md5_dict self') m = Some paths"
      using dist that by simp
    then have "paths = dict_get (md5_dict self') m"
      by (simp add: dict_get_def)
    also have "\<dots> = map snd (filter (\<lambda>r. fst r = Some m) ?rs)"
      using aggregate_group [OF ne, of "length image_files" ?rs ?t0]
      by (simp add: d dict_get_def)
    finally have "mset paths = image_mset snd (filter_mset (\<lambda>r. fst r = Some m) (mset ?rs))"
      by simp
    also have "\<dots> = mset (map snd (filter (\<lambda>r. fst r = Some m) ?cs))"
      by (simp only: ms mset_filter mset_map)
    finally show ?thesis
      by (simp only: paths_of_digest)
  qed
  from conserve dist grp show ?thesis
    by auto
qed

lemma demo_scan:
  "process_images toy_hasher demo_fs 5
      [Start, Start, Finish 1, Start, Finish 0, Start, Finish 1, Finish 0,
       Yield 0, Yield 0, Yield 0, Yield 0]
      (init_finder (Some 2)) [''a.jpg'', ''b.png'', ''x.jpg'', ''c.jpg'']
   = Returned (\<lparr> max_workers = Some 2,
        md5_dict = [(''00000000000000000000000000000007'', [''b.png'']),
                    (''00000000000000000000000000000003'', [''a.jpg'', ''c.jpg''])] \<rparr>,
       [Started 4, AllDone])"
  by (simp add: process_images_def future_results_def pool_size_def init_finder_def
      submit_all_def pool_step_def upt_rec all_done_def as_completed_def demo_digests
      consume_def dict_append_def dict_get_def Let_def)

theorem aggregation_conserves_files_witness:
  "hashlib_law toy_hasher
   \<and> process_images toy_hasher demo_fs 5
        [Start, Start, Finish 1, Start, Finish 0, Start, Finish 1, Finish 0,
         Yield 0, Yield 0, Yield 0, Yield 0]
        (init_finder (Some 2)) [''a.jpg'', ''b.png'', ''x.jpg'', ''c.jpg'']
      = Returned (\<lparr> max_workers = Some 2,
          md5_dict = [(''00000000000000000000000000000007'', [''b.png'']),
                      (''00000000000000000000000000000003'', [''a.jpg'', ''c.jpg''])] \<rparr>,
         [Started 4, AllDone])
   \<and> total_paths [(''00000000000000000000000000000007'', [''b.png'']),
                    (''00000000000000000000000000000003'', [''a.jpg'', ''c.jpg''])]
        + length (filter failed (map (calculate_md5 toy_hasher demo_fs)
            [''a.jpg'', ''b.png'', ''x.jpg'', ''c.jpg'']))
      = 4
   \<and> length (filter failed (map (calculate_md5 toy_hasher demo_fs)
            [''a.jpg'', ''b.png'', ''x.jpg'', ''c.jpg''])) = 1"
proof -
  have f: "length (filter failed (map (calculate_md5 toy_hasher demo_fs)
            [''a.jpg'', ''b.png'', ''x.jpg'', ''c.jpg''])) = 1"
    by (simp add: demo_digests failed_def)
  show ?thesis
    using aggregation_conserves_files [OF toy_hasher_law demo_scan] toy_hasher_law demo_scan f
    by simp
qed

lemma keys_dict_append: "fst ` set (dict_append d k v) = insert k (fst ` set d)"
proof -
  have "set (map fst (dict_append d k v)) = insert k (set (map fst d))"
    unfolding dict_append_def keys_dict_set by auto
  then show ?thesis
    by simp
qed

lemma aggregate_keys:
  "fst ` set (groups (aggregate n rs t))
     = fst ` set (groups t) \<union> {m. m \<noteq> [] \<and> (\<exists>p. (Some m, p) \<in> set rs)}"
proof (induction rs arbitrary: t)
  case Nil
  show ?case by simp
next
  case (Cons r rs)
  obtain v p where r: "r = (v, p)" by (cases r)
  show ?case
  proof (cases v)
    case None
    then show ?thesis
      by (auto simp: Cons.IH consume_groups r)
  next
    case (Some m)
    then show ?thesis
      by (cases "m = []") (auto simp: Cons.IH consume_groups r keys_dict_append)
  qed
qed

lemma aggregate_group_empty_key:
  "dict_get (groups (aggregate n rs t)) [] = dict_get (groups t) []"
proof (induction rs arbitrary: t)
  case Nil
  show ?case by simp
next
  case (Cons r rs)
  show ?case
    by (cases "fst r") (auto simp: Cons.IH consume_groups dict_get_dict_append)
qed

lemma consume_printed:
  "printed (consume n r t)
     = printed t @ (if Suc (completed t) mod 100 = 0 then [Progress (Suc (completed t)) n] else [])"
  by (simp add: consume_def Let_def)

lemma aggregate_printed:
  "printed (aggregate n rs t)
     = printed t @ map (\<lambda>c. Progress c n)
         (filter (\<lambda>c. c mod 100 = 0) [Suc (completed t)..<Suc (completed t + length rs)])"
proof (induction rs arbitrary: t)
  case Nil
  show ?case by simp
next
  case (Cons r rs)
  have u: "[Suc (completed t)..<Suc (completed t + length (r # rs))]
      = Suc (completed t) # [Suc (Suc (completed t))..<Suc (Suc (completed t) + length rs)]"
    by (simp add: upt_conv_Cons del: upt_Suc)
  have "printed (aggregate n (r # rs) t)
      = printed (consume n r t) @ map (\<lambda>c. Progress c n)
          (filter (\<lambda>c. c mod 100 = 0)
             [Suc (Suc (completed t))..<Suc (Suc (completed t) + length rs)])"
    by (simp add: Cons.IH consume_completed del: upt_Suc)
  then show ?case
    unfolding u by (simp add: consume_printed del: upt_Suc)
qed

lemma aggregate_groups_cong:
  "groups t = groups t' \<Longrightarrow> groups (aggregate n rs t) = groups (aggregate n rs t')"
proof (induction rs arbitrary: t t')
  case Nil
  then show ?case by simp
next
  case (Cons r rs)
  have "groups (consume n r t) = groups (consume n r t')"
    by (simp only: consume_groups Cons.prems)
  from Cons.IH [OF this] show ?case
    by simp
qed

lemma aggregate_skips_failed:
  "groups (aggregate n rs t) = groups (aggregate n (filter (\<lambda>r. \<not> failed r) rs) t)"
proof (induction rs arbitrary: t)
  case Nil
  show ?case by simp
next
  case (Cons r rs)
  show ?case
  proof (cases "failed r")
    case True
    then have "groups (consume n r t) = groups t"
      by (simp add: consume_groups failed_def)
    then have "groups (aggregate n rs (consume n r t)) = groups (aggregate n rs t)"
      by (rule aggregate_groups_cong)
    with True show ?thesis
      using Cons.IH [of t] by simp
  next
    case False
    then show ?thesis
      using Cons.IH [of "consume n r t"] by simp
  qed
qed

text \<open>
  C4, as the code has it. For every sequence of digest results the aggregator appends the
  path of each successful digest, in the order of the sequence, to the end of the group of
  its fingerprint, making the group when the fingerprint is new. It keeps no list of
  failures: a failed digest leaves the dictionary as it was and only advances the local
  counter \<open>completed\<close>, so the dictionary is the one the successful results alone would
  give. When the sequence is exhausted, \<open>process_images\<close> exposes the finder with the
  updated dictionary and nothing else, and what it prints itself are counts: the first line,
  a progress line at every hundredth result, the last line.
\<close>

theorem aggregator_keeps_successes_only:
  "(\<forall>m. m \<noteq> [] \<longrightarrow>
      dict_get (groups (aggregate n rs t)) m
        = dict_get (groups t) m @ map snd (filter (\<lambda>r. fst r = Some m) rs))
   \<and> dict_get (groups (aggregate n rs t)) [] = dict_get (groups t) []
   \<and> fst ` set (groups (aggregate n rs t))
      = fst ` set (groups t) \<union> {m. m \<noteq> [] \<and> (\<exists>p. (Some m, p) \<in> set rs)}
   \<and> groups (aggregate n rs t) = groups (aggregate n (filter (\<lambda>r. \<not> failed r) rs) t)
   \<and> completed (aggregate n rs t) = completed t + length rs
   \<and> printed (aggregate n rs t)
      = printed t @ map (\<lambda>c. Progress c n)
          (filter (\<lambda>c. c mod 100 = 0) [Suc (completed t)..<Suc (completed t + length rs)])
   \<and> (\<forall>h fs dflt sched self image_files self' out.
        process_images h fs dflt sched self image_files = Returned (self', out) \<longrightarrow>
        (\<exists>results. future_results h fs dflt sched self image_files = Returned results
           \<and> self' = self\<lparr> md5_dict := groups (aggregate (length image_files) results
                   \<lparr> groups = md5_dict self, completed = 0,
                     printed = [Started (length image_files)] \<rparr>) \<rparr>
           \<and> out = Started (length image_files)
                 # map (\<lambda>c. Progress c (length image_files))
                     (filter (\<lambda>c. c mod 100 = 0) [1..<Suc (length image_files)])
                 @ [AllDone]))"
proof (intro conjI allI impI)
  fix m :: string
  assume "m \<noteq> []"
  then show "dict_get (groups (aggregate n rs t)) m
        = dict_get (groups t) m @ map snd (filter (\<lambda>r. fst r = Some m) rs)"
    by (rule aggregate_group)
next
  show "dict_get (groups (aggregate n rs t)) [] = dict_get (groups t) []"
    by (rule aggregate_group_empty_key)
  show "fst ` set (groups (aggregate n rs t))
      = fst ` set (groups t) \<union> {m. m \<noteq> [] \<and> (\<exists>p. (Some m, p) \<in> set rs)}"
    by (rule aggregate_keys)
  show "groups (aggregate n rs t) = groups (aggregate n (filter (\<lambda>r. \<not> failed r) rs) t)"
    by (rule aggregate_skips_failed)
  show "completed (aggregate n rs t) = completed t + length rs"
    by (rule aggregate_completed)
  show "printed (aggregate n rs t)
      = printed t @ map (\<lambda>c. Progress c n)
          (filter (\<lambda>c. c mod 100 = 0) [Suc (completed t)..<Suc (completed t + length rs)])"
    by (rule aggregate_printed)
next
  fix h :: "'s hasher" and fs dflt sched self image_files self' out
  assume ret: "process_images h fs dflt sched self image_files = Returned (self', out)"
  let ?t0 = "\<lparr> groups = md5_dict self, completed = 0,
                     printed = [Started (length image_files)] \<rparr>"
  from process_images_Returned [OF ret] obtain results where
    fr: "future_results h fs dflt sched self image_files = Returned results"
    and self': "self' = self\<lparr> md5_dict := groups (aggregate (length image_files) results ?t0) \<rparr>"
    and out: "out = printed (aggregate (length image_files) results ?t0) @ [AllDone]"
    by blast
  have "mset results = mset (map (calculate_md5 h fs) image_files)"
    using fr by (rule future_results_mset)
  then have len: "length results = length image_files"
    by (metis length_map size_mset)
  have "out = Started (length image_files)
                 # map (\<lambda>c. Progress c (length image_files))
                     (filter (\<lambda>c. c mod 100 = 0) [1..<Suc (length image_files)])
                 @ [AllDone]"
    by (simp add: out aggregate_printed len)
  with fr self' show "\<exists>results. future_results h fs dflt sched self image_files = Returned results
           \<and> self' = self\<lparr> md5_dict := groups (aggregate (length image_files) results ?t0) \<rparr>
           \<and> out = Started (length image_files)
                 # map (\<lambda>c. Progress c (length image_files))
                     (filter (\<lambda>c. c mod 100 = 0) [1..<Suc (length image_files)])
                 @ [AllDone]"
    by blast
qed

theorem aggregator_keeps_successes_only_witness:
  "''ab'' \<noteq> []
   \<and> dict_get (groups (aggregate 3
         [(Some ''ab'', ''a.jpg''), (None, ''x.jpg''), (Some ''ab'', ''c.jpg'')]
         \<lparr> groups = [], completed = 0, printed = [Started 3] \<rparr>)) ''ab''
      = [''a.jpg'', ''c.jpg'']
   \<and> groups (aggregate 3
         [(Some ''ab'', ''a.jpg''), (None, ''x.jpg''), (Some ''ab'', ''c.jpg'')]
         \<lparr> groups = [], completed = 0, printed = [Started 3] \<rparr>)
      = [(''ab'', [''a.jpg'', ''c.jpg''])]
   \<and> completed (aggregate 3
         [(Some ''ab'', ''a.jpg''), (None, ''x.jpg''), (Some ''ab'', ''c.jpg'')]
         \<lparr> groups = [], completed = 0, printed = [Started 3] \<rparr>) = 3"
proof -
  let ?rs = "[(Some ''ab'', ''a.jpg''), (None, ''x.jpg''), (Some ''ab'', ''c.jpg'')]"
  let ?t = "\<lparr> groups = [], completed = 0, printed = [Started 3] \<rparr>"
  have ne: "''ab'' \<noteq> []"
    by simp
  from aggregator_keeps_successes_only [of 3 ?rs ?t] ne
  have "dict_get (groups (aggregate 3 ?rs ?t)) ''ab''
        = dict_get (groups ?t) ''ab'' @ map snd (filter (\<lambda>r. fst r = Some ''ab'') ?rs)"
    and "completed (aggregate 3 ?rs ?t) = completed ?t + length ?rs"
    by blast+
  moreover have "groups (aggregate 3 ?rs ?t) = [(''ab'', [''a.jpg'', ''c.jpg''])]"
    by (simp add: consume_def dict_append_def dict_get_def Let_def)
  ultimately show ?thesis
    by (simp add: dict_get_def)
qed

text \<open>
  Two scans whose only input is a path that cannot be read, a different one each time,
  return the very same finder: no failure list is exposed from which the failed path could
  be read off. What \<open>process_images\<close> prints itself is the same in both, too; the message
  of \<open>calculate_md5\<close> comes from the worker and is no part of what the aggregator keeps.
\<close>

theorem failed_paths_not_exposed:
  "process_images toy_hasher demo_fs 5 [Start, Finish 0, Yield 0] (init_finder (Some 8))
       [''x.jpg'']
     = Returned (init_finder (Some 8), [Started 1, AllDone])
   \<and> process_images toy_hasher demo_fs 5 [Start, Finish 0, Yield 0] (init_finder (Some 8))
       [''y.jpg'']
     = Returned (init_finder (Some 8), [Started 1, AllDone])
   \<and> failed (calculate_md5 toy_hasher demo_fs ''x.jpg'')
   \<and> failed (calculate_md5 toy_hasher demo_fs ''y.jpg'')"
  by (simp add: process_images_def future_results_def pool_size_def init_finder_def
      submit_all_def pool_step_def upt_rec all_done_def as_completed_def demo_digests
      consume_def failed_def Let_def)

lemma dict_set_fresh: "k \<notin> fst ` set d \<Longrightarrow> dict_set d k v = d @ [(k, v)]"
  by (induction d) auto

lemma comprehension_filter:
  assumes "distinct (map fst d)" and "fst ` set acc \<inter> fst ` set d = {}"
  shows "foldl (\<lambda>duplicates (md5_value, paths).
              if length paths > 1 then dict_set duplicates md5_value paths else duplicates)
           acc d
       = acc @ filter (\<lambda>(md5_value, paths). 1 < length paths) d"
  using assms
proof (induction d arbitrary: acc)
  case Nil
  show ?case by simp
next
  case (Cons e d)
  obtain k ps where e: "e = (k, ps)" by (cases e)
  have fresh: "k \<notin> fst ` set acc"
    using Cons.prems(2) by (auto simp: e)
  have d: "distinct (map fst d)" and kd: "k \<notin> fst ` set d"
    using Cons.prems(1) by (auto simp: e)
  show ?case
  proof (cases "1 < length ps")
    case True
    have "fst ` set (acc @ [(k, ps)]) \<inter> fst ` set d = {}"
      using Cons.prems(2) kd by (auto simp: e)
    from Cons.IH [OF d this] True show ?thesis
      by (simp add: e dict_set_fresh [OF fresh])
  next
    case False
    have "fst ` set acc \<inter> fst ` set d = {}"
      using Cons.prems(2) by (auto simp: e)
    from Cons.IH [OF d this] False show ?thesis
      by (simp add: e)
  qed
qed

lemma map_of_filter_entries:
  "distinct (map fst d) \<Longrightarrow>
   map_of (filter (\<lambda>(k, v). P v) d) k
     = (case map_of d k of None \<Rightarrow> None | Some v \<Rightarrow> if P v then Some v else None)"
proof (induction d)
  case Nil
  show ?case by simp
next
  case (Cons e d)
  obtain k' v' where e: "e = (k', v')" by (cases e)
  have "map_of d k' = None"
    using Cons.prems by (simp add: e map_of_eq_None_iff)
  then show ?case
    using Cons by (auto simp: e split: option.splits)
qed

text \<open>
  C5. For a fingerprint dictionary (its keys distinct, as in every Python \<open>dict\<close>),
  \<open>find_duplicates\<close> returns exactly the entries whose list has more than one path, in
  their order, with keys and lists unchanged: looking a fingerprint up in the result gives
  its list if that list has more than one path and nothing otherwise. The count reported is
  the number of such entries.
\<close>

theorem find_duplicates_filters:
  assumes "distinct (map fst (md5_dict self))"
  shows "find_duplicates self = filter (\<lambda>(md5_value, paths). 1 < length paths) (md5_dict self)
    \<and> (\<forall>m. map_of (find_duplicates self) m
          = (case map_of (md5_dict self) m of
               None \<Rightarrow> None
             | Some paths \<Rightarrow> if 1 < length paths then Some paths else None))
    \<and> found_duplicates_count self
        = length (filter (\<lambda>(md5_value, paths). 1 < length paths) (md5_dict self))
    \<and> found_duplicates_count self
        = card {m. \<exists>paths. map_of (md5_dict self) m = Some paths \<and> 1 < length paths}"
proof -
  let ?P = "\<lambda>(md5_value :: string, paths :: string list). 1 < length paths"
  have eq: "find_duplicates self = filter ?P (md5_dict self)"
    using comprehension_filter [OF assms, of "[]"] by (simp add: find_duplicates_def)
  have look: "map_of (filter ?P (md5_dict self)) m
          = (case map_of (md5_dict self) m of
               None \<Rightarrow> None
             | Some paths \<Rightarrow> if 1 < length paths then Some paths else None)" for m
    using map_of_filter_entries [OF assms, of "\<lambda>paths. 1 < length paths" m] by simp
  have dist: "distinct (map fst (filter ?P (md5_dict self)))"
    using assms by (rule distinct_map_filter)
  have "length (filter ?P (md5_dict self)) = card (set (map fst (filter ?P (md5_dict self))))"
    using dist by (metis distinct_card length_map)
  also have "set (map fst (filter ?P (md5_dict self)))
      = {m. \<exists>paths. map_of (md5_dict self) m = Some paths \<and> 1 < length paths}"
    using assms by (auto simp: image_iff)
  finally have card: "length (filter ?P (md5_dict self))
      = card {m. \<exists>paths. map_of (md5_dict self) m = Some paths \<and> 1 < length paths}" .
  show ?thesis
    using eq look card by (simp add: found_duplicates_count_def)
qed

theorem find_duplicates_filters_witness:
  "distinct (map fst (md5_dict \<lparr> max_workers = Some 8,
        md5_dict = [(''aa'', [''a.jpg'', ''c.jpg'']), (''bb'', [''b.png'']),
                    (''cc'', [''d.gif'', ''e.gif'', ''f.gif''])] \<rparr>))
   \<and> find_duplicates \<lparr> max_workers = Some 8,
        md5_dict = [(''aa'', [''a.jpg'', ''c.jpg'']), (''bb'', [''b.png'']),
                    (''cc'', [''d.gif'', ''e.gif'', ''f.gif''])] \<rparr>
      = [(''aa'', [''a.jpg'', ''c.jpg'']), (''cc'', [''d.gif'', ''e.gif'', ''f.gif''])]
   \<and> found_duplicates_count \<lparr> max_workers = Some 8,
        md5_dict = [(''aa'', [''a.jpg'', ''c.jpg'']), (''bb'', [''b.png'']),
                    (''cc'', [''d.gif'', ''e.gif'', ''f.gif''])] \<rparr> = 2"
proof -
  let ?self = "\<lparr> max_workers = Some 8,
        md5_dict = [(''aa'', [''a.jpg'', ''c.jpg'']), (''bb'', [''b.png'']),
                    (''cc'', [''d.gif'', ''e.gif'', ''f.gif''])] \<rparr>"
  have d: "distinct (map fst (md5_dict ?self))"
    by simp
  show ?thesis
    using find_duplicates_filters [OF d] d by simp
qed

section \<open>Properties of the prune script\<close>

subsection \<open>What one deletion and one entry do\<close>

lemma delete_one_missing:
  assumes "os_path_exists (disk_of s) x = Inr False"
  shows "delete_one x s = s\<lparr> console := console s @ [Warn_missing x] \<rparr>"
  using assms by (simp add: delete_one_def try_delete_def)

lemma delete_one_os_error:
  assumes "os_path_exists (disk_of s) x = Inr True" and "os_remove (disk_of s) x = Inl e"
    and "is_OSError e"
  shows "delete_one x s = s\<lparr> console := console s @ [Error_os x e] \<rparr>"
  using assms by (simp add: delete_one_def try_delete_def)

lemma delete_one_removable:
  assumes "p \<in> present (disk_of s)" and "p \<notin> locked (disk_of s)"
  shows "delete_one (JStr p) s
     = s\<lparr> disk_of := (disk_of s)\<lparr> present := present (disk_of s) - {p} \<rparr>,
          console := console s @ [Deleted (JStr p)],
          files_deleted_count := files_deleted_count s + 1 \<rparr>"
  using assms by (simp add: delete_one_def try_delete_def os_path_exists_def os_remove_def)

lemma delete_one_stuck:
  assumes "\<not> removable (disk_of s) x"
  shows "\<exists>ev. delete_one x s = s\<lparr> console := console s @ [ev] \<rparr> \<and> ev \<notin> range Deleted"
proof (cases "os_path_exists (disk_of s) x")
  case (Inl e)
  then show ?thesis
    by (auto simp: delete_one_def try_delete_def)
next
  case (Inr found)
  show ?thesis
  proof (cases found)
    case False
    with Inr show ?thesis
      by (auto simp: delete_one_def try_delete_def)
  next
    case True
    have "\<exists>e. os_remove (disk_of s) x = Inl e"
      using assms Inr True
      by (cases x) (auto simp: removable_def os_remove_def os_path_exists_def)
    then show ?thesis
      using Inr True by (auto simp: delete_one_def try_delete_def)
  qed
qed

lemma delete_one_console: "length (console (delete_one x s)) = Suc (length (console s))"
proof (cases "removable (disk_of s) x")
  case True
  then obtain p where "x = JStr p" "p \<in> present (disk_of s)" "p \<notin> locked (disk_of s)"
    by (cases x) (auto simp: removable_def)
  then show ?thesis
    by (simp add: delete_one_removable)
next
  case False
  from delete_one_stuck [OF this] show ?thesis
    by auto
qed

lemma delete_one_fields:
  "kept_files_data (delete_one x s) = kept_files_data s"
  "processed_md5_count (delete_one x s) = processed_md5_count s"
  "locked (disk_of (delete_one x s)) = locked (disk_of s)"
  "odd_exists (disk_of (delete_one x s)) = odd_exists (disk_of s)"
  "present (disk_of (delete_one x s))
     = present (disk_of s) - {p. x = JStr p \<and> p \<notin> locked (disk_of s)}"
proof -
  show "kept_files_data (delete_one x s) = kept_files_data s"
    "processed_md5_count (delete_one x s) = processed_md5_count s"
    "locked (disk_of (delete_one x s)) = locked (disk_of s)"
    "odd_exists (disk_of (delete_one x s)) = odd_exists (disk_of s)"
    by (auto simp: delete_one_def try_delete_def os_remove_def
        split: sum.splits if_splits json.splits)
  show "present (disk_of (delete_one x s))
     = present (disk_of s) - {p. x = JStr p \<and> p \<notin> locked (disk_of s)}"
  proof (cases "removable (disk_of s) x")
    case True
    then obtain p where "x = JStr p" "p \<in> present (disk_of s)" "p \<notin> locked (disk_of s)"
      by (cases x) (auto simp: removable_def)
    then show ?thesis
      by (auto simp: delete_one_removable)
  next
    case False
    from delete_one_stuck [OF this] have "disk_of (delete_one x s) = disk_of s"
      by auto
    moreover have "present (disk_of s) - {p. x = JStr p \<and> p \<notin> locked (disk_of s)}
        = present (disk_of s)"
      using False by (auto simp: removable_def)
    ultimately show ?thesis
      by simp
  qed
qed

lemma delete_rest_fields:
  "kept_files_data (delete_rest xs s) = kept_files_data s"
  "processed_md5_count (delete_rest xs s) = processed_md5_count s"
  "locked (disk_of (delete_rest xs s)) = locked (disk_of s)"
  "odd_exists (disk_of (delete_rest xs s)) = odd_exists (disk_of s)"
  "length (console (delete_rest xs s)) = length (console s) + length xs"
  by (induction xs arbitrary: s) (simp_all add: delete_one_fields delete_one_console)

lemma delete_rest_present:
  "present (disk_of (delete_rest xs s))
     = present (disk_of s) - {p. JStr p \<in> set xs \<and> p \<notin> locked (disk_of s)}"
proof (induction xs arbitrary: s)
  case Nil
  show ?case by simp
next
  case (Cons x xs)
  show ?case
    by (auto simp: Cons.IH delete_one_fields)
qed

lemma delete_rest_append:
  "delete_rest (xs @ ys) s = delete_rest ys (delete_rest xs s)"
  by (induction xs arbitrary: s) simp_all

lemma prune_loop_append:
  "prune_loop (es @ es') s = prune_loop es' (prune_loop es s)"
  by (induction es arbitrary: s) simp_all

lemma prune_entry_invalid:
  assumes "invalid_list file_list"
  shows "prune_entry (md5_hash, file_list) s
     = s\<lparr> processed_md5_count := processed_md5_count s + 1,
          console := console s @ [Warn_invalid_list md5_hash] \<rparr>"
  using assms by (simp add: prune_entry_def Let_def)

lemma prune_entry_valid:
  assumes "\<not> invalid_list file_list"
  shows "prune_entry (md5_hash, file_list) s
     = delete_rest (drop 1 (items file_list))
         (s\<lparr> processed_md5_count := processed_md5_count s + 1,
             kept_files_data :=
               dict_set (kept_files_data s) md5_hash (JList [hd (items file_list)]) \<rparr>)"
  using assms by (simp add: prune_entry_def Let_def)

lemma prune_entry_fields:
  "processed_md5_count (prune_entry e s) = Suc (processed_md5_count s)"
  "locked (disk_of (prune_entry e s)) = locked (disk_of s)"
  "odd_exists (disk_of (prune_entry e s)) = odd_exists (disk_of s)"
  "kept_files_data (prune_entry e s)
     = (if invalid_list (snd e) then kept_files_data s
        else dict_set (kept_files_data s) (fst e) (JList [hd (items (snd e))]))"
  "present (disk_of (prune_entry e s))
     = present (disk_of s) - {p. JStr p \<in> set (candidates [e]) \<and> p \<notin> locked (disk_of s)}"
  by (cases e; cases "invalid_list (snd e)";
      simp add: prune_entry_invalid prune_entry_valid delete_rest_fields delete_rest_present
        candidates_def)+

lemma candidates_Cons: "candidates (e # es) = candidates [e] @ candidates es"
  by (simp add: candidates_def)

lemma prune_loop_fields:
  "processed_md5_count (prune_loop es s) = processed_md5_count s + length es"
  "locked (disk_of (prune_loop es s)) = locked (disk_of s)"
  "odd_exists (disk_of (prune_loop es s)) = odd_exists (disk_of s)"
  by (induction es arbitrary: s) (simp_all add: prune_entry_fields)

lemma prune_loop_present:
  "present (disk_of (prune_loop es s))
     = present (disk_of s) - {p. JStr p \<in> set (candidates es) \<and> p \<notin> locked (disk_of s)}"
proof (induction es arbitrary: s)
  case Nil
  show ?case by (simp add: candidates_def)
next
  case (Cons e es)
  have "candidates (e # es) = candidates [e] @ candidates es"
    by (rule candidates_Cons)
  then show ?case
    by (auto simp: Cons.IH prune_entry_fields)
qed

subsection \<open>Deletions, reruns and the kept files\<close>

lemma removable_after_rest:
  "removable (disk_of (delete_rest xs s)) x \<longleftrightarrow> removable (disk_of s) x \<and> x \<notin> set xs"
  by (cases x) (auto simp: removable_def delete_rest_present delete_rest_fields)

lemma removable_after_one:
  "removable (disk_of (delete_one y s)) x \<longleftrightarrow> removable (disk_of s) x \<and> x \<noteq> y"
  using removable_after_rest [of "[y]" s x] by simp

lemma removable_after_loop:
  "removable (disk_of (prune_loop es s)) x
     \<longleftrightarrow> removable (disk_of s) x \<and> x \<notin> set (candidates es)"
  by (cases x) (auto simp: removable_def prune_loop_present prune_loop_fields)

lemma deleted_one:
  "Deleted x \<in> set (console (delete_one y s))
     \<longleftrightarrow> Deleted x \<in> set (console s) \<or> (x = y \<and> removable (disk_of s) y)"
proof (cases "removable (disk_of s) y")
  case True
  then obtain p where "y = JStr p" "p \<in> present (disk_of s)" "p \<notin> locked (disk_of s)"
    by (cases y) (auto simp: removable_def)
  then show ?thesis
    using True by (auto simp: delete_one_removable)
next
  case False
  from delete_one_stuck [OF this] show ?thesis
    using False by auto
qed

lemma deleted_rest:
  "Deleted x \<in> set (console (delete_rest xs s))
     \<longleftrightarrow> Deleted x \<in> set (console s) \<or> (x \<in> set xs \<and> removable (disk_of s) x)"
proof (induction xs arbitrary: s)
  case Nil
  show ?case by simp
next
  case (Cons y ys)
  show ?case
    by (auto simp: Cons.IH deleted_one removable_after_one)
qed

lemma deleted_entry:
  "Deleted x \<in> set (console (prune_entry e s))
     \<longleftrightarrow> Deleted x \<in> set (console s) \<or> (x \<in> set (candidates [e]) \<and> removable (disk_of s) x)"
  by (cases e; cases "invalid_list (snd e)";
      simp add: prune_entry_invalid prune_entry_valid deleted_rest candidates_def)

lemma removable_after_entry:
  "removable (disk_of (prune_entry e s)) x
     \<longleftrightarrow> removable (disk_of s) x \<and> x \<notin> set (candidates [e])"
  using removable_after_loop [of "[e]" s x] by simp

lemma deleted_loop:
  "Deleted x \<in> set (console (prune_loop es s))
     \<longleftrightarrow> Deleted x \<in> set (console s) \<or> (x \<in> set (candidates es) \<and> removable (disk_of s) x)"
proof (induction es arbitrary: s)
  case Nil
  show ?case by (simp add: candidates_def)
next
  case (Cons e es)
  have c: "set (candidates (e # es)) = set (candidates [e]) \<union> set (candidates es)"
    using candidates_Cons [of e es] by simp
  show ?case
    unfolding prune_loop.simps Cons.IH deleted_entry removable_after_entry c by auto
qed

lemma idle_one:
  assumes "\<not> removable (disk_of s) x"
  shows "disk_of (delete_one x s) = disk_of s"
    and "files_deleted_count (delete_one x s) = files_deleted_count s"
  using delete_one_stuck [OF assms] by auto

lemma idle_rest:
  assumes "\<forall>x \<in> set xs. \<not> removable (disk_of s) x"
  shows "disk_of (delete_rest xs s) = disk_of s
    \<and> files_deleted_count (delete_rest xs s) = files_deleted_count s"
  using assms
proof (induction xs arbitrary: s)
  case Nil
  show ?case by simp
next
  case (Cons x xs)
  have x: "\<not> removable (disk_of s) x"
    using Cons.prems by simp
  have "\<forall>y \<in> set xs. \<not> removable (disk_of (delete_one x s)) y"
    using Cons.prems by (simp add: idle_one(1) [OF x])
  from Cons.IH [OF this] show ?case
    by (simp add: idle_one [OF x])
qed

lemma idle_entry:
  assumes "\<forall>x \<in> set (candidates [e]). \<not> removable (disk_of s) x"
  shows "disk_of (prune_entry e s) = disk_of s
    \<and> files_deleted_count (prune_entry e s) = files_deleted_count s"
proof (cases "invalid_list (snd e)")
  case True
  then show ?thesis
    by (cases e) (simp add: prune_entry_invalid)
next
  case False
  let ?s2 = "s\<lparr> processed_md5_count := processed_md5_count s + 1,
             kept_files_data :=
               dict_set (kept_files_data s) (fst e) (JList [hd (items (snd e))]) \<rparr>"
  have "\<forall>x \<in> set (drop 1 (items (snd e))). \<not> removable (disk_of ?s2) x"
    using assms False by (simp add: candidates_def)
  from idle_rest [OF this] show ?thesis
    using False by (cases e) (simp add: prune_entry_valid)
qed

lemma idle_loop:
  assumes "\<forall>x \<in> set (candidates es). \<not> removable (disk_of s) x"
  shows "disk_of (prune_loop es s) = disk_of s
    \<and> files_deleted_count (prune_loop es s) = files_deleted_count s"
  using assms
proof (induction es arbitrary: s)
  case Nil
  show ?case by simp
next
  case (Cons e es)
  have c: "set (candidates (e # es)) = set (candidates [e]) \<union> set (candidates es)"
    using candidates_Cons [of e es] by simp
  have e: "\<forall>x \<in> set (candidates [e]). \<not> removable (disk_of s) x"
    using Cons.prems c by simp
  have "\<forall>x \<in> set (candidates es). \<not> removable (disk_of (prune_entry e s)) x"
    using Cons.prems c idle_entry [OF e] by simp
  from Cons.IH [OF this] show ?case
    using idle_entry [OF e] by simp
qed

lemma kept_loop:
  "kept_files_data (prune_loop es s)
     = foldl (\<lambda>kept e. if invalid_list (snd e) then kept
                else dict_set kept (fst e) (JList [hd (items (snd e))]))
         (kept_files_data s) es"
  by (induction es arbitrary: s) (simp_all add: prune_entry_fields)

lemma kept_distinct:
  assumes "distinct (map fst es)" and "fst ` set acc \<inter> fst ` set es = {}"
  shows "foldl (\<lambda>kept e. if invalid_list (snd e) then kept
                else dict_set kept (fst e) (JList [hd (items (snd e))])) acc es
       = acc @ map (\<lambda>e. (fst e, JList [hd (items (snd e))]))
                 (filter (\<lambda>e. \<not> invalid_list (snd e)) es)"
  using assms
proof (induction es arbitrary: acc)
  case Nil
  show ?case by simp
next
  case (Cons e es)
  have fresh: "fst e \<notin> fst ` set acc"
    using Cons.prems(2) by auto
  have d: "distinct (map fst es)" and kd: "fst e \<notin> fst ` set es"
    using Cons.prems(1) by auto
  show ?case
  proof (cases "invalid_list (snd e)")
    case True
    have "fst ` set acc \<inter> fst ` set es = {}"
      using Cons.prems(2) by auto
    from Cons.IH [OF d this] True show ?thesis
      by simp
  next
    case False
    have "fst ` set (acc @ [(fst e, JList [hd (items (snd e))])]) \<inter> fst ` set es = {}"
      using Cons.prems(2) kd by auto
    from Cons.IH [OF d this] False show ?thesis
      by (simp add: dict_set_fresh [OF fresh])
  qed
qed

lemma delete_file_entries:
  assumes "has_duplicates data = Inr (Some entries)"
  shows "delete_file (Loaded data) d = finish (prune_loop entries (start d))"
  using assms by (simp add: delete_file_def)

lemma finish_fields:
  "disk_of (fst (finish s)) = disk_of s"
  "kept_files_data (fst (finish s)) = kept_files_data s"
  "files_deleted_count (fst (finish s)) = files_deleted_count s"
  "processed_md5_count (fst (finish s)) = processed_md5_count s"
  "snd (finish s) = Some (new_json_structure s)"
  "Deleted x \<in> set (console (fst (finish s))) \<longleftrightarrow> Deleted x \<in> set (console s)"
  by (auto simp: finish_def)

subsection \<open>The updated report\<close>

lemma demo_entries:
  "has_duplicates demo_report
     = Inr (Some [(''aa'', JList [JStr ''a.jpg'', JStr ''c.jpg'']),
                  (''bb'', JList []),
                  (''cc'', JList [JStr ''d.gif'', JStr ''e.gif'', JStr ''f.gif''])])"
  by (simp add: has_duplicates_def demo_report_def)

lemma distinct_keys_unique:
  assumes "distinct (map fst xs)" and "(k, v) \<in> set xs" and "(k, v') \<in> set xs"
  shows "v = v'"
  using assms by (metis map_of_is_SomeI option.inject)

text \<open>
  C6. For a report whose \<open>duplicates\<close> object has distinct keys, the structure the script
  builds holds, for every entry with a non-empty list and in the order of the report, the
  key with the one-element list of the entry's first path, and nothing else; its
  \<open>found_duplicates_count\<close> is the number of those entries. Entries with an invalid list
  are in neither.
\<close>

theorem pruned_report_keeps_first_paths:
  assumes "has_duplicates data = Inr (Some entries)" and "distinct (map fst entries)"
  shows "snd (delete_file (Loaded data) d)
       = Some (JObj [(''found_duplicates_count'',
                        JInt (int (length (filter (\<lambda>e. \<not> invalid_list (snd e)) entries)))),
                     (''duplicates'',
                        JObj (map (\<lambda>e. (fst e, JList [hd (items (snd e))]))
                               (filter (\<lambda>e. \<not> invalid_list (snd e)) entries)))])
    \<and> (\<forall>k x xs. (k, JList (x # xs)) \<in> set entries \<longrightarrow>
          map_of (kept_files_data (fst (delete_file (Loaded data) d))) k = Some (JList [x]))
    \<and> (\<forall>k v. (k, v) \<in> set entries \<and> invalid_list v \<longrightarrow>
          map_of (kept_files_data (fst (delete_file (Loaded data) d))) k = None)"
proof -
  let ?valid = "filter (\<lambda>e. \<not> invalid_list (snd e)) entries"
  let ?kept = "map (\<lambda>e. (fst e, JList [hd (items (snd e))])) ?valid"
  have run: "delete_file (Loaded data) d = finish (prune_loop entries (start d))"
    using assms(1) by (rule delete_file_entries)
  have "kept_files_data (prune_loop entries (start d)) = [] @ ?kept"
    unfolding kept_loop using kept_distinct [OF assms(2), of "[]"] by (simp add: start_def)
  then have kept: "kept_files_data (prune_loop entries (start d)) = ?kept"
    by simp
  have report: "snd (delete_file (Loaded data) d)
       = Some (JObj [(''found_duplicates_count'', JInt (int (length ?valid))),
                     (''duplicates'', JObj ?kept)])"
    by (simp add: run finish_fields new_json_structure_def kept)
  have keys: "map fst ?kept = map fst ?valid"
    by simp
  have dist: "distinct (map fst ?kept)"
    unfolding keys using assms(2) by (rule distinct_map_filter)
  have first: "map_of ?kept k = Some (JList [x])" if "(k, JList (x # xs)) \<in> set entries" for k x xs
  proof -
    have "(k, JList (x # xs)) \<in> set ?valid"
      using that by (simp add: invalid_list_def)
    then have "(k, JList [x]) \<in> set ?kept"
      by (force simp: items_def)
    with dist show ?thesis
      by (rule map_of_is_SomeI)
  qed
  have none: "map_of ?kept k = None" if "(k, v) \<in> set entries" and "invalid_list v" for k v
  proof -
    have "k \<notin> fst ` set ?valid"
    proof
      assume "k \<in> fst ` set ?valid"
      then obtain v' where v': "(k, v') \<in> set entries" "\<not> invalid_list v'"
        by auto
      have "v = v'"
        using assms(2) that(1) v'(1) by (rule distinct_keys_unique)
      with that(2) v'(2) show False
        by simp
    qed
    then have "k \<notin> fst ` set ?kept"
      using keys by (metis list.set_map)
    then show ?thesis
      by (simp add: map_of_eq_None_iff)
  qed
  have k: "kept_files_data (fst (delete_file (Loaded data) d)) = ?kept"
    by (simp add: run finish_fields kept)
  have a: "\<forall>k x xs. (k, JList (x # xs)) \<in> set entries \<longrightarrow>
          map_of (kept_files_data (fst (delete_file (Loaded data) d))) k = Some (JList [x])"
    unfolding k using first by blast
  have b: "\<forall>k v. (k, v) \<in> set entries \<and> invalid_list v \<longrightarrow>
          map_of (kept_files_data (fst (delete_file (Loaded data) d))) k = None"
    unfolding k using none by blast
  from report a b show ?thesis
    by (intro conjI)
qed

theorem pruned_report_keeps_first_paths_witness:
  "has_duplicates demo_report
     = Inr (Some [(''aa'', JList [JStr ''a.jpg'', JStr ''c.jpg'']),
                  (''bb'', JList []),
                  (''cc'', JList [JStr ''d.gif'', JStr ''e.gif'', JStr ''f.gif''])])
   \<and> distinct (map fst [(''aa'', JList [JStr ''a.jpg'', JStr ''c.jpg'']),
                  (''bb'', JList []),
                  (''cc'', JList [JStr ''d.gif'', JStr ''e.gif'', JStr ''f.gif''])])
   \<and> snd (delete_file (Loaded demo_report) demo_disk)
       = Some (JObj [(''found_duplicates_count'', JInt 2),
                     (''duplicates'', JObj [(''aa'', JList [JStr ''a.jpg'']),
                                            (''cc'', JList [JStr ''d.gif''])])])"
proof -
  have d: "distinct (map fst [(''aa'', JList [JStr ''a.jpg'', JStr ''c.jpg'']),
                  (''bb'', JList []),
                  (''cc'', JList [JStr ''d.gif'', JStr ''e.gif'', JStr ''f.gif''])])"
    by simp
  show ?thesis
    using pruned_report_keeps_first_paths [OF demo_entries d, of demo_disk] demo_entries d
    by (simp add: invalid_list_def items_def)
qed

text \<open>
  C7, as the code has it. An entry whose list is empty or no list is skipped with a warning:
  nothing is deleted, the deletion count and the kept entries are as before, and the entry
  is not in the updated report. The counter of scanned groups, \<open>processed_md5_count\<close>, is
  advanced all the same: it is incremented before the list is looked at.
\<close>

theorem invalid_entry_is_skipped:
  assumes "invalid_list file_list"
  shows "prune_entry (md5_hash, file_list) s
       = s\<lparr> processed_md5_count := processed_md5_count s + 1,
            console := console s @ [Warn_invalid_list md5_hash] \<rparr>
    \<and> (\<forall>data entries d. has_duplicates data = Inr (Some entries) \<and> distinct (map fst entries)
          \<and> (md5_hash, file_list) \<in> set entries \<longrightarrow>
          map_of (kept_files_data (fst (delete_file (Loaded data) d))) md5_hash = None)"
proof (intro conjI allI impI)
  show "prune_entry (md5_hash, file_list) s
       = s\<lparr> processed_md5_count := processed_md5_count s + 1,
            console := console s @ [Warn_invalid_list md5_hash] \<rparr>"
    using assms by (rule prune_entry_invalid)
next
  fix data entries d
  assume a: "has_duplicates data = Inr (Some entries) \<and> distinct (map fst entries)
          \<and> (md5_hash, file_list) \<in> set entries"
  let ?valid = "filter (\<lambda>e. \<not> invalid_list (snd e)) entries"
  let ?kept = "map (\<lambda>e. (fst e, JList [hd (items (snd e))])) ?valid"
  have "kept_files_data (prune_loop entries (start d)) = [] @ ?kept"
    unfolding kept_loop using a kept_distinct [of entries "[]"] by (simp add: start_def)
  then have kept: "kept_files_data (fst (delete_file (Loaded data) d)) = ?kept"
    using a by (simp add: delete_file_entries finish_fields)
  have "md5_hash \<notin> fst ` set ?valid"
  proof
    assume "md5_hash \<in> fst ` set ?valid"
    then obtain v' where v': "(md5_hash, v') \<in> set entries" "\<not> invalid_list v'"
      by auto
    have "file_list = v'"
      using a v'(1) by (blast intro: distinct_keys_unique)
    with assms v'(2) show False
      by simp
  qed
  moreover have "map fst ?kept = map fst ?valid"
    by simp
  ultimately have "md5_hash \<notin> fst ` set ?kept"
    by (metis list.set_map)
  then show "map_of (kept_files_data (fst (delete_file (Loaded data) d))) md5_hash = None"
    by (simp add: kept map_of_eq_None_iff)
qed

theorem invalid_entry_is_skipped_witness:
  "invalid_list (JList [])
   \<and> prune_entry (''bb'', JList []) (start demo_disk)
       = \<lparr> disk_of = demo_disk, kept_files_data = [], files_deleted_count = 0,
           processed_md5_count = 1, console = [Warn_invalid_list ''bb''] \<rparr>
   \<and> map_of (kept_files_data (fst (delete_file (Loaded demo_report) demo_disk))) ''bb'' = None"
proof -
  have i: "invalid_list (JList [])"
    by (simp add: invalid_list_def)
  have "has_duplicates demo_report
     = Inr (Some [(''aa'', JList [JStr ''a.jpg'', JStr ''c.jpg'']),
                  (''bb'', JList []),
                  (''cc'', JList [JStr ''d.gif'', JStr ''e.gif'', JStr ''f.gif''])])
    \<and> distinct (map fst [(''aa'', JList [JStr ''a.jpg'', JStr ''c.jpg'']),
                  (''bb'', JList []),
                  (''cc'', JList [JStr ''d.gif'', JStr ''e.gif'', JStr ''f.gif''])])
    \<and> (''bb'', JList []) \<in> set [(''aa'', JList [JStr ''a.jpg'', JStr ''c.jpg'']),
                  (''bb'', JList []),
                  (''cc'', JList [JStr ''d.gif'', JStr ''e.gif'', JStr ''f.gif''])]"
    using demo_entries by simp
  with invalid_entry_is_skipped [OF i, of "''bb''" "start demo_disk"]
  have "prune_entry (''bb'', JList []) (start demo_disk)
       = (start demo_disk)\<lparr> processed_md5_count := processed_md5_count (start demo_disk) + 1,
            console := console (start demo_disk) @ [Warn_invalid_list ''bb''] \<rparr>"
    and "map_of (kept_files_data (fst (delete_file (Loaded demo_report) demo_disk))) ''bb'' = None"
    by blast+
  then show ?thesis
    using i by (simp add: start_def)
qed

text \<open>
  The claim as stated fails on the counter of scanned groups: a report with one entry,
  whose list is empty, leaves \<open>processed_md5_count\<close> at 1.
\<close>

theorem skipped_entry_advances_scanned_count:
  "invalid_list (JList [])
   \<and> processed_md5_count (start demo_disk) = 0
   \<and> processed_md5_count (prune_entry (''bb'', JList []) (start demo_disk)) = 1
   \<and> processed_md5_count
        (fst (delete_file (Loaded (JObj [(''duplicates'', JObj [(''bb'', JList [])])])) demo_disk))
      = 1"
  by (simp add: invalid_list_def start_def prune_entry_def delete_file_def has_duplicates_def
      finish_def Let_def)

subsection \<open>Outcomes of a deletion, and running twice\<close>

lemma console_grows_one: "set (console s) \<subseteq> set (console (delete_one x s))"
proof (cases "removable (disk_of s) x")
  case True
  then obtain p where "x = JStr p" "p \<in> present (disk_of s)" "p \<notin> locked (disk_of s)"
    by (cases x) (auto simp: removable_def)
  then show ?thesis
    by (auto simp: delete_one_removable)
next
  case False
  from delete_one_stuck [OF this] show ?thesis
    by auto
qed

lemma console_grows_rest: "set (console s) \<subseteq> set (console (delete_rest xs s))"
proof (induction xs arbitrary: s)
  case Nil
  show ?case by simp
next
  case (Cons x xs)
  show ?case
    using console_grows_one [of s x] Cons.IH [of "delete_one x s"] by auto
qed

lemma console_grows_entry: "set (console s) \<subseteq> set (console (prune_entry e s))"
proof (cases "invalid_list (snd e)")
  case True
  then show ?thesis
    by (cases e) (auto simp: prune_entry_invalid)
next
  case False
  let ?s2 = "s\<lparr> processed_md5_count := processed_md5_count s + 1,
             kept_files_data :=
               dict_set (kept_files_data s) (fst e) (JList [hd (items (snd e))]) \<rparr>"
  have "set (console ?s2) \<subseteq> set (console (delete_rest (drop 1 (items (snd e))) ?s2))"
    by (rule console_grows_rest)
  then show ?thesis
    using False by (cases e) (simp add: prune_entry_valid)
qed

lemma console_grows_loop: "set (console s) \<subseteq> set (console (prune_loop es s))"
proof (induction es arbitrary: s)
  case Nil
  show ?case by simp
next
  case (Cons e es)
  show ?case
    using console_grows_entry [of s e] Cons.IH [of "prune_entry e s"] by auto
qed

lemma missing_logged_rest:
  assumes "JStr p \<in> set xs" and "p \<notin> present (disk_of s)"
  shows "Warn_missing (JStr p) \<in> set (console (delete_rest xs s))"
  using assms
proof (induction xs arbitrary: s)
  case Nil
  then show ?case by simp
next
  case (Cons y ys)
  show ?case
  proof (cases "y = JStr p")
    case True
    have "delete_one (JStr p) s = s\<lparr> console := console s @ [Warn_missing (JStr p)] \<rparr>"
      using Cons.prems(2) by (intro delete_one_missing) (simp add: os_path_exists_def)
    then have "Warn_missing (JStr p) \<in> set (console (delete_one y s))"
      using True by simp
    then show ?thesis
      using console_grows_rest [of "delete_one y s" ys] by auto
  next
    case False
    then have "JStr p \<in> set ys"
      using Cons.prems(1) by auto
    moreover have "p \<notin> present (disk_of (delete_one y s))"
      using Cons.prems(2) by (simp add: delete_one_fields)
    ultimately show ?thesis
      using Cons.IH by simp
  qed
qed

lemma missing_logged_entry:
  assumes "JStr p \<in> set (candidates [e])" and "p \<notin> present (disk_of s)"
  shows "Warn_missing (JStr p) \<in> set (console (prune_entry e s))"
proof -
  have v: "\<not> invalid_list (snd e)" and c: "JStr p \<in> set (drop 1 (items (snd e)))"
    using assms(1) by (auto simp: candidates_def split: if_splits)
  let ?s2 = "s\<lparr> processed_md5_count := processed_md5_count s + 1,
             kept_files_data :=
               dict_set (kept_files_data s) (fst e) (JList [hd (items (snd e))]) \<rparr>"
  have "p \<notin> present (disk_of ?s2)"
    using assms(2) by simp
  from missing_logged_rest [OF c this] show ?thesis
    using v by (cases e) (simp add: prune_entry_valid)
qed

lemma missing_logged_loop:
  assumes "JStr p \<in> set (candidates es)" and "p \<notin> present (disk_of s)"
  shows "Warn_missing (JStr p) \<in> set (console (prune_loop es s))"
  using assms
proof (induction es arbitrary: s)
  case Nil
  then show ?case by (simp add: candidates_def)
next
  case (Cons e es)
  have c: "set (candidates (e # es)) = set (candidates [e]) \<union> set (candidates es)"
    using candidates_Cons [of e es] by simp
  show ?case
  proof (cases "JStr p \<in> set (candidates [e])")
    case True
    from missing_logged_entry [OF this Cons.prems(2)]
    show ?thesis
      using console_grows_loop [of "prune_entry e s" es] by auto
  next
    case False
    then have "JStr p \<in> set (candidates es)"
      using Cons.prems(1) c by auto
    moreover have "p \<notin> present (disk_of (prune_entry e s))"
      using Cons.prems(2) by (simp add: prune_entry_fields)
    ultimately show ?thesis
      using Cons.IH by simp
  qed
qed

lemma console_count_entry:
  "length (console (prune_entry e s))
     = length (console s) + (if invalid_list (snd e) then 1 else 0) + length (candidates [e])"
  by (cases e; cases "invalid_list (snd e)";
      simp add: prune_entry_invalid prune_entry_valid delete_rest_fields candidates_def)

lemma console_count_loop:
  "length (console (prune_loop es s))
     = length (console s) + length (filter (\<lambda>e. invalid_list (snd e)) es)
       + length (candidates es)"
proof (induction es arbitrary: s)
  case Nil
  show ?case by (simp add: candidates_def)
next
  case (Cons e es)
  have "length (candidates (e # es)) = length (candidates [e]) + length (candidates es)"
    using candidates_Cons [of e es] by simp
  then show ?case
    by (simp add: Cons.IH console_count_entry)
qed

text \<open>
  As long as every message can be printed, no outcome of a deletion stops the batch. A path
  that does not exist gets a missing-file warning and nothing else changes; a removal the
  operating system refuses gets an error message and nothing else changes; in both cases, as
  after any other outcome, the loop goes on with the next path and then with the next entry.
  So every run over a report comes to its end and builds the new structure, every entry is
  scanned, and the messages of the loop are one per candidate path and one per skipped entry.
\<close>

theorem deletion_never_aborts_batch:
  assumes "has_duplicates data = Inr (Some entries)"
  shows "snd (delete_file (Loaded data) d) \<noteq> None
    \<and> processed_md5_count (fst (delete_file (Loaded data) d)) = length entries
    \<and> length (console (prune_loop entries (start d)))
        = length (filter (\<lambda>e. invalid_list (snd e)) entries) + length (candidates entries)
    \<and> (\<forall>x (s :: prune). os_path_exists (disk_of s) x = Inr False \<longrightarrow>
          delete_one x s = s\<lparr> console := console s @ [Warn_missing x] \<rparr>)
    \<and> (\<forall>x (s :: prune) e. os_path_exists (disk_of s) x = Inr True \<and> os_remove (disk_of s) x = Inl e
            \<and> is_OSError e \<longrightarrow>
          delete_one x s = s\<lparr> console := console s @ [Error_os x e] \<rparr>)
    \<and> (\<forall>xs x ys s. delete_rest (xs @ x # ys) s = delete_rest ys (delete_one x (delete_rest xs s)))
    \<and> (\<forall>es e es' s. prune_loop (es @ e # es') s
          = prune_loop es' (prune_entry e (prune_loop es s)))"
proof (intro conjI allI impI)
  have run: "delete_file (Loaded data) d = finish (prune_loop entries (start d))"
    using assms by (rule delete_file_entries)
  show "snd (delete_file (Loaded data) d) \<noteq> None"
    by (simp add: run finish_fields)
  show "processed_md5_count (fst (delete_file (Loaded data) d)) = length entries"
    by (simp add: run finish_fields prune_loop_fields start_def)
  show "length (console (prune_loop entries (start d)))
        = length (filter (\<lambda>e. invalid_list (snd e)) entries) + length (candidates entries)"
    by (simp add: console_count_loop start_def)
next
  fix x and s :: prune
  assume "os_path_exists (disk_of s) x = Inr False"
  then show "delete_one x s = s\<lparr> console := console s @ [Warn_missing x] \<rparr>"
    by (rule delete_one_missing)
next
  fix x and s :: prune and e
  assume "os_path_exists (disk_of s) x = Inr True \<and> os_remove (disk_of s) x = Inl e
            \<and> is_OSError e"
  then show "delete_one x s = s\<lparr> console := console s @ [Error_os x e] \<rparr>"
    by (blast intro: delete_one_os_error)
next
  fix xs x ys s
  show "delete_rest (xs @ x # ys) s = delete_rest ys (delete_one x (delete_rest xs s))"
    by (simp add: delete_rest_append)
next
  fix es e es' s
  show "prune_loop (es @ e # es') s = prune_loop es' (prune_entry e (prune_loop es s))"
    by (simp add: prune_loop_append)
qed

lemma demo_run:
  "delete_file (Loaded demo_report) demo_disk
   = (\<lparr> disk_of = \<lparr> present = {''a.jpg'', ''d.gif'', ''f.gif''}, locked = {''f.gif''},
                     odd_exists = (\<lambda>x. Inl TypeError) \<rparr>,
        kept_files_data = [(''aa'', JList [JStr ''a.jpg'']), (''cc'', JList [JStr ''d.gif''])],
        files_deleted_count = 1, processed_md5_count = 3,
        console = [Deleted (JStr ''c.jpg''), Warn_invalid_list ''bb'',
                   Warn_missing (JStr ''e.gif''), Error_os (JStr ''f.gif'') OSError,
                   Summary 3 2 1,
                   Dump (JObj [(''found_duplicates_count'', JInt 2),
                               (''duplicates'', JObj [(''aa'', JList [JStr ''a.jpg'']),
                                                      (''cc'', JList [JStr ''d.gif''])])])] \<rparr>,
      Some (JObj [(''found_duplicates_count'', JInt 2),
                  (''duplicates'', JObj [(''aa'', JList [JStr ''a.jpg'']),
                                         (''cc'', JList [JStr ''d.gif''])])]))"
  by (simp add: delete_file_def demo_entries demo_disk_def finish_def start_def prune_entry_def
      invalid_list_def items_def delete_one_def try_delete_def os_path_exists_def os_remove_def
      is_OSError_def new_json_structure_def Let_def insert_Diff_if)

theorem deletion_never_aborts_batch_witness:
  "has_duplicates demo_report
     = Inr (Some [(''aa'', JList [JStr ''a.jpg'', JStr ''c.jpg'']),
                  (''bb'', JList []),
                  (''cc'', JList [JStr ''d.gif'', JStr ''e.gif'', JStr ''f.gif''])])
   \<and> snd (delete_file (Loaded demo_report) demo_disk) \<noteq> None
   \<and> processed_md5_count (fst (delete_file (Loaded demo_report) demo_disk)) = 3
   \<and> console (fst (delete_file (Loaded demo_report) demo_disk))
      = [Deleted (JStr ''c.jpg''), Warn_invalid_list ''bb'',
         Warn_missing (JStr ''e.gif''), Error_os (JStr ''f.gif'') OSError,
         Summary 3 2 1,
         Dump (JObj [(''found_duplicates_count'', JInt 2),
                     (''duplicates'', JObj [(''aa'', JList [JStr ''a.jpg'']),
                                            (''cc'', JList [JStr ''d.gif''])])])]"
proof -
  from deletion_never_aborts_batch [OF demo_entries, of demo_disk]
  have "snd (delete_file (Loaded demo_report) demo_disk) \<noteq> None"
    and "processed_md5_count (fst (delete_file (Loaded demo_report) demo_disk))
      = length [(''aa'', JList [JStr ''a.jpg'', JStr ''c.jpg'']),
                  (''bb'', JList []),
                  (''cc'', JList [JStr ''d.gif'', JStr ''e.gif'', JStr ''f.gif''])]"
    by blast+
  then show ?thesis
    using demo_entries by (simp add: demo_run)
qed

text \<open>
  C9. Running the script a second time on the same report, on the disk the first run left,
  builds the same structure with the same kept files, deletes nothing and leaves the disk as
  it is: every path the first run deleted is missing now and gets a missing-file warning.
  The disk is assumed to change through the script only.
\<close>

theorem prune_twice_idempotent:
  assumes "delete_file ld d = (s1, r1)" and "delete_file ld (disk_of s1) = (s2, r2)"
  shows "r2 = r1
    \<and> kept_files_data s2 = kept_files_data s1
    \<and> files_deleted_count s2 = 0
    \<and> disk_of s2 = disk_of s1
    \<and> (\<forall>x. Deleted x \<notin> set (console s2))
    \<and> (\<forall>x. Deleted x \<in> set (console s1) \<longrightarrow> Warn_missing x \<in> set (console s2))"
proof (cases "\<exists>data entries. ld = Loaded data \<and> has_duplicates data = Inr (Some entries)")
  case False
  have "fst (delete_file ld d') = (fst (delete_file ld d))\<lparr> disk_of := d' \<rparr>
      \<and> snd (delete_file ld d') = snd (delete_file ld d)
      \<and> disk_of (fst (delete_file ld d)) = d
      \<and> files_deleted_count (fst (delete_file ld d)) = 0
      \<and> (\<forall>x. Deleted x \<notin> set (console (fst (delete_file ld d))))" for d'
    using False
    by (cases ld)
      (auto simp: delete_file_def finish_def start_def new_json_structure_def
        split: sum.splits option.splits)
  from this [of "disk_of s1"] assms show ?thesis
    by auto
next
  case True
  then obtain data entries where ld: "ld = Loaded data"
    and h: "has_duplicates data = Inr (Some entries)"
    by blast
  let ?t1 = "prune_loop entries (start d)"
  let ?t2 = "prune_loop entries (start (disk_of s1))"
  have run1: "(s1, r1) = finish ?t1" and run2: "(s2, r2) = finish ?t2"
    using assms h by (simp_all add: ld delete_file_entries)
  have s1: "s1 = fst (finish ?t1)" and r1: "r1 = snd (finish ?t1)"
    and s2: "s2 = fst (finish ?t2)" and r2: "r2 = snd (finish ?t2)"
    using run1 run2 by (metis fst_conv, metis snd_conv, metis fst_conv, metis snd_conv)
  have d1: "disk_of s1 = disk_of ?t1"
    by (simp add: s1 finish_fields)
  have kept: "kept_files_data ?t2 = kept_files_data ?t1"
    by (simp add: kept_loop start_def)
  have settled: "\<forall>x \<in> set (candidates entries). \<not> removable (disk_of (start (disk_of s1))) x"
    by (simp add: start_def d1 removable_after_loop)
  have "disk_of (start (disk_of s1)) = disk_of s1"
    and "files_deleted_count (start (disk_of s1)) = 0"
    by (simp_all add: start_def)
  then have idle: "disk_of ?t2 = disk_of s1" "files_deleted_count ?t2 = 0"
    using idle_loop [OF settled] by simp_all
  have no_del: "Deleted x \<notin> set (console s2)" for x
    using settled by (auto simp: s2 finish_fields deleted_loop start_def)
  have warn: "Warn_missing x \<in> set (console s2)" if "Deleted x \<in> set (console s1)" for x
  proof -
    from that have c: "x \<in> set (candidates entries)" and r: "removable d x"
      by (auto simp: s1 finish_fields deleted_loop start_def)
    from r obtain p where x: "x = JStr p" and "p \<notin> locked d"
      by (cases x) (auto simp: removable_def)
    then have "p \<notin> present (disk_of s1)"
      using c by (simp add: d1 prune_loop_present start_def)
    then have "p \<notin> present (disk_of (start (disk_of s1)))"
      by (simp add: start_def)
    from missing_logged_loop [OF c [unfolded x] this]
    show ?thesis
      by (auto simp: s2 x finish_def)
  qed
  have "r2 = r1"
    by (simp add: r1 r2 finish_fields new_json_structure_def kept)
  moreover have "kept_files_data s2 = kept_files_data s1"
  proof -
    have "kept_files_data s2 = kept_files_data ?t2"
      by (subst s2) (simp add: finish_fields)
    moreover have "kept_files_data s1 = kept_files_data ?t1"
      by (subst s1) (simp add: finish_fields)
    ultimately show ?thesis
      using kept by simp
  qed
  moreover have "files_deleted_count s2 = 0"
    by (subst s2) (simp add: finish_fields idle)
  moreover have "disk_of s2 = disk_of s1"
    by (subst s2) (simp add: finish_fields idle)
  ultimately show ?thesis
    using no_del warn by blast
qed

lemma demo_rerun:
  "delete_file (Loaded demo_report)
     \<lparr> present = {''a.jpg'', ''d.gif'', ''f.gif''}, locked = {''f.gif''},
       odd_exists = (\<lambda>x. Inl TypeError) \<rparr>
   = (\<lparr> disk_of = \<lparr> present = {''a.jpg'', ''d.gif'', ''f.gif''}, locked = {''f.gif''},
                     odd_exists = (\<lambda>x. Inl TypeError) \<rparr>,
        kept_files_data = [(''aa'', JList [JStr ''a.jpg'']), (''cc'', JList [JStr ''d.gif''])],
        files_deleted_count = 0, processed_md5_count = 3,
        console = [Warn_missing (JStr ''c.jpg''), Warn_invalid_list ''bb'',
                   Warn_missing (JStr ''e.gif''), Error_os (JStr ''f.gif'') OSError,
                   Summary 3 2 0,
                   Dump (JObj [(''found_duplicates_count'', JInt 2),
                               (''duplicates'', JObj [(''aa'', JList [JStr ''a.jpg'']),
                                                      (''cc'', JList [JStr ''d.gif''])])])] \<rparr>,
      Some (JObj [(''found_duplicates_count'', JInt 2),
                  (''duplicates'', JObj [(''aa'', JList [JStr ''a.jpg'']),
                                         (''cc'', JList [JStr ''d.gif''])])]))"
  by (simp add: delete_file_def demo_entries finish_def start_def prune_entry_def
      invalid_list_def items_def delete_one_def try_delete_def os_path_exists_def os_remove_def
      is_OSError_def new_json_structure_def Let_def)

theorem prune_twice_idempotent_witness:
  "files_deleted_count (fst (delete_file (Loaded demo_report) demo_disk)) = 1
   \<and> files_deleted_count
        (fst (delete_file (Loaded demo_report)
               (disk_of (fst (delete_file (Loaded demo_report) demo_disk))))) = 0
   \<and> snd (delete_file (Loaded demo_report)
               (disk_of (fst (delete_file (Loaded demo_report) demo_disk))))
      = snd (delete_file (Loaded demo_report) demo_disk)
   \<and> disk_of (fst (delete_file (Loaded demo_report)
               (disk_of (fst (delete_file (Loaded demo_report) demo_disk)))))
      = \<lparr> present = {''a.jpg'', ''d.gif'', ''f.gif''}, locked = {''f.gif''},
          odd_exists = (\<lambda>x. Inl TypeError) \<rparr>
   \<and> Warn_missing (JStr ''c.jpg'')
      \<in> set (console (fst (delete_file (Loaded demo_report)
               (disk_of (fst (delete_file (Loaded demo_report) demo_disk))))))"
proof -
  let ?d1 = "\<lparr> present = {''a.jpg'', ''d.gif'', ''f.gif''}, locked = {''f.gif''},
          odd_exists = (\<lambda>x :: json. Inl TypeError :: exc + bool) \<rparr>"
  have d1: "disk_of (fst (delete_file (Loaded demo_report) demo_disk)) = ?d1"
    by (simp add: demo_run)
  have a: "delete_file (Loaded demo_report) demo_disk
      = (fst (delete_file (Loaded demo_report) demo_disk),
         snd (delete_file (Loaded demo_report) demo_disk))"
    by simp
  have b: "delete_file (Loaded demo_report)
        (disk_of (fst (delete_file (Loaded demo_report) demo_disk)))
      = (fst (delete_file (Loaded demo_report) ?d1), snd (delete_file (Loaded demo_report) ?d1))"
    by (simp add: d1)
  have del: "Deleted (JStr ''c.jpg'')
      \<in> set (console (fst (delete_file (Loaded demo_report) demo_disk)))"
    by (simp add: demo_run)
  from prune_twice_idempotent [OF a b] del
  have "snd (delete_file (Loaded demo_report) ?d1)
        = snd (delete_file (Loaded demo_report) demo_disk)"
    and "files_deleted_count (fst (delete_file (Loaded demo_report) ?d1)) = 0"
    and "disk_of (fst (delete_file (Loaded demo_report) ?d1))
        = disk_of (fst (delete_file (Loaded demo_report) demo_disk))"
    and "Warn_missing (JStr ''c.jpg'')
        \<in> set (console (fst (delete_file (Loaded demo_report) ?d1)))"
    by blast+
  then show ?thesis
    by (simp add: d1) (simp add: demo_run)
qed

subsection \<open>Which paths are deleted\<close>




subsection \<open>When a message cannot be printed\<close>

lemma say_ok: "enc x \<Longrightarrow> say enc x ev s = Inr (s\<lparr> console := console s @ [ev] \<rparr>)"
  by (simp add: say_def)

lemma delete_one_c_ok:
  assumes "enc x"
  shows "delete_one_c enc x s = Inr (delete_one x s)"
  using assms
  by (auto simp: delete_one_c_def delete_one_def try_delete_c_def try_delete_def say_def
      split: sum.splits)

lemma delete_rest_c_ok:
  "list_all enc xs \<Longrightarrow> delete_rest_c enc xs s = Inr (delete_rest xs s)"
  by (induction xs arbitrary: s) (simp_all add: delete_one_c_ok)

lemma prune_entry_c_ok:
  assumes "printable enc [e]"
  shows "prune_entry_c enc e s = Inr (prune_entry e s)"
  using assms
  by (cases "invalid_list (snd e)")
    (simp_all add: printable_def prune_entry_c_def prune_entry_def Let_def say_ok
      delete_rest_c_ok)

lemma printable_Cons: "printable enc (e # es) \<longleftrightarrow> printable enc [e] \<and> printable enc es"
  by (simp add: printable_def)

lemma prune_loop_c_ok:
  "printable enc es \<Longrightarrow> prune_loop_c enc es s = Inr (prune_loop es s)"
proof (induction es arbitrary: s)
  case Nil
  show ?case by simp
next
  case (Cons e es)
  then have "printable enc [e]" and "printable enc es"
    using printable_Cons [of enc e es] by simp_all
  then show ?case
    by (simp add: prune_entry_c_ok Cons.IH)
qed

text \<open>
  On a console that can print every message for the report, the script with the failing
  console is the script above.
\<close>

lemma delete_file_c_printable:
  assumes "\<forall>entries. has_duplicates data = Inr (Some entries) \<longrightarrow> printable enc entries"
  shows "delete_file_c enc (Loaded data) d = delete_file (Loaded data) d"
proof (cases "has_duplicates data")
  case (Inl e)
  then show ?thesis
    by (simp add: delete_file_c_def delete_file_def)
next
  case (Inr found)
  show ?thesis
  proof (cases found)
    case None
    with Inr show ?thesis
      by (simp add: delete_file_c_def delete_file_def)
  next
    case (Some entries)
    with Inr assms have "printable enc entries"
      by simp
    then show ?thesis
      using Inr Some by (simp add: delete_file_c_def delete_file_def prune_loop_c_ok)
  qed
qed

lemma odd_entries:
  "has_duplicates odd_report
     = Inr (Some [(''aa'', JList [JStr ''a.jpg'', JStr [CHR ''c'', CHR 0xFF, CHR ''.'', CHR ''j'']]),
                  (''cc'', JList [JStr ''d.gif'', JStr ''f.gif''])])"
  by (simp add: has_duplicates_def odd_report_def)

text \<open>
  C8. The claim fails on the code when the console cannot print a path. The report has two
  entries with one duplicate each, all four files exist, and the name of the first duplicate
  is not ASCII while the console is. The script removes that file; the message that it is
  deleted cannot be printed, the handler for unknown errors tries to print the same path and
  raises in turn, and the exception leaves both loops. The second entry is never looked at
  (its duplicate \<open>f.gif\<close> is still there), one entry was scanned, the deletion was not
  counted, and no new structure is built.
\<close>

theorem unprintable_path_aborts_batch:
  "delete_file_c ascii_console (Loaded odd_report) odd_disk
   = (\<lparr> disk_of = \<lparr> present = {''a.jpg'', ''d.gif'', ''f.gif''}, locked = {},
                     odd_exists = (\<lambda>x. Inl TypeError) \<rparr>,
        kept_files_data = [(''aa'', JList [JStr ''a.jpg''])],
        files_deleted_count = 0, processed_md5_count = 1,
        console = [Error_unexpected UnicodeEncodeError] \<rparr>,
      None)"
  by (simp add: delete_file_c_def odd_entries odd_disk_def start_def prune_entry_c_def
      invalid_list_def items_def delete_one_c_def try_delete_c_def say_def ascii_console_def
      os_path_exists_def os_remove_def is_OSError_def Let_def insert_Diff_if)

end
